theory Spec2Isabelle
  imports Main
begin

section \<open>JavaScript strings\<close>

text \<open>
  A JavaScript string is a sequence of code units. The model reads a \<^typ>\<open>char\<close> as the
  code unit of the same number, so it covers the texts whose code units are below 256.
  In that range the white space of \<^verbatim>\<open>\s\<close> and of \<^verbatim>\<open>trim\<close> is TAB, LF, VT, FF, CR,
  SPACE and NBSP, and the line terminators of \<^verbatim>\<open>^\<close> and \<^verbatim>\<open>$\<close> are LF and CR.
\<close>

definition is_lt :: "char \<Rightarrow> bool" where
  "is_lt c = (c = CHR 0x0A \<or> c = CHR 0x0D)"

definition is_space :: "char \<Rightarrow> bool" where
  "is_space c = (c = CHR 0x09 \<or> c = CHR 0x0A \<or> c = CHR 0x0B \<or> c = CHR 0x0C \<or> c = CHR 0x0D
     \<or> c = CHR 0x20 \<or> c = CHR 0xA0)"

definition is_word :: "char \<Rightarrow> bool" where
  "is_word c = (let n = (of_char c :: nat) in
     (97 \<le> n \<and> n \<le> 122) \<or> (65 \<le> n \<and> n \<le> 90) \<or> (48 \<le> n \<and> n \<le> 57) \<or> n = 95)"

text \<open>\<^verbatim>\<open>toLowerCase\<close> on code units below 256: A-Z and the capital letters of Latin-1.\<close>

definition lower_char :: "char \<Rightarrow> char" where
  "lower_char c = (let n = (of_char c :: nat) in
     if (65 \<le> n \<and> n \<le> 90) \<or> (192 \<le> n \<and> n \<le> 222 \<and> n \<noteq> 215) then char_of (n + 32) else c)"

definition toLowerCase :: "string \<Rightarrow> string" where
  "toLowerCase s = map lower_char s"

text \<open>
  The canonical form a pattern with the \<^verbatim>\<open>i\<close> flag compares (upper case of one code
  unit). The code units 181 and 255 go to upper-case letters above 255 that no other
  code unit below 256 reaches, and 223 has no upper case of one unit, so the three
  stay themselves for the comparison.
\<close>

definition canon :: "char \<Rightarrow> char" where
  "canon c = (let n = (of_char c :: nat) in
     if (97 \<le> n \<and> n \<le> 122) \<or> (224 \<le> n \<and> n \<le> 254 \<and> n \<noteq> 247) then char_of (n - 32) else c)"

definition trimStart :: "string \<Rightarrow> string" where
  "trimStart s = dropWhile is_space s"

definition trimEnd :: "string \<Rightarrow> string" where
  "trimEnd s = rev (dropWhile is_space (rev s))"

definition trim :: "string \<Rightarrow> string" where
  "trim s = trimEnd (trimStart s)"

fun startsWith :: "string \<Rightarrow> string \<Rightarrow> bool" where
  "startsWith s [] = True"
| "startsWith [] (p # ps) = False"
| "startsWith (c # cs) (p # ps) = (c = p \<and> startsWith cs ps)"

definition endsWith :: "string \<Rightarrow> string \<Rightarrow> bool" where
  "endsWith s e = startsWith (rev s) (rev e)"

fun includes_str :: "string \<Rightarrow> string \<Rightarrow> bool" where
  "includes_str [] t = (t = [])"
| "includes_str (c # cs) t = (startsWith (c # cs) t \<or> includes_str cs t)"

text \<open>\<^verbatim>\<open>replaceAll\<close> with a pattern of one character and a replacement without \<^verbatim>\<open>$\<close>.\<close>

fun replaceAll :: "char \<Rightarrow> string \<Rightarrow> string \<Rightarrow> string" where
  "replaceAll a r [] = []"
| "replaceAll a r (c # cs) = (if c = a then r @ replaceAll a r cs else c # replaceAll a r cs)"

section \<open>Regular expressions\<close>

text \<open>
  The patterns of the four scripts use literals, character classes, quantifiers over a
  single character or class, the assertions \<^verbatim>\<open>^\<close>, \<^verbatim>\<open>$\<close> and \<^verbatim>\<open>\b\<close>, capturing groups,
  alternatives and one lookahead. The matcher is the backtracking matcher of the language:
  it returns the first success in priority order. The continuation is a stack of what is
  left to match.
\<close>

datatype citem = Ch char | Esc_s | Esc_S | Esc_w

datatype cclass = CC bool "citem list"

datatype rx =
    Lit string
  | Chars cclass
  | Quant cclass nat "nat option" bool
  | Bol
  | Eol
  | WordB
  | Grp nat rx
  | Seq rx rx
  | Alt rx rx
  | Look rx

type_synonym caps = "nat \<Rightarrow> string option"

datatype item = R rx | EndG nat string

fun in_item :: "bool \<Rightarrow> char \<Rightarrow> citem \<Rightarrow> bool" where
  "in_item ic c (Ch a) = (if ic then canon c = canon a else c = a)"
| "in_item ic c Esc_s = is_space c"
| "in_item ic c Esc_S = (\<not> is_space c)"
| "in_item ic c Esc_w = is_word c"

fun in_class :: "bool \<Rightarrow> cclass \<Rightarrow> char \<Rightarrow> bool" where
  "in_class ic (CC neg its) c = (list_ex (in_item ic c) its \<noteq> neg)"

fun rsize :: "rx \<Rightarrow> nat" where
  "rsize (Grp n r) = 2 + rsize r"
| "rsize (Seq a b) = 1 + rsize a + rsize b"
| "rsize (Alt a b) = 1 + rsize a + rsize b"
| "rsize (Look r) = 1 + rsize r"
| "rsize r = 1"

fun isize :: "item \<Rightarrow> nat" where
  "isize (R r) = rsize r"
| "isize (EndG n s) = 1"

definition word_before :: "char option \<Rightarrow> bool" where
  "word_before p = (case p of None \<Rightarrow> False | Some c \<Rightarrow> is_word c)"

definition word_after :: "string \<Rightarrow> bool" where
  "word_after s = (case s of [] \<Rightarrow> False | c # cs \<Rightarrow> is_word c)"

definition at_bol :: "bool \<Rightarrow> char option \<Rightarrow> bool" where
  "at_bol ml p = (case p of None \<Rightarrow> True | Some c \<Rightarrow> ml \<and> is_lt c)"

definition at_eol :: "bool \<Rightarrow> string \<Rightarrow> bool" where
  "at_eol ml s = (case s of [] \<Rightarrow> True | c # cs \<Rightarrow> ml \<and> is_lt c)"

definition dec :: "nat option \<Rightarrow> nat option" where
  "dec mx = (case mx of None \<Rightarrow> None | Some n \<Rightarrow> Some (n - 1))"

text \<open>
  \<open>m ic ml k p s c\<close>: match the stack \<open>k\<close> with the flags \<open>i\<close> and \<open>m\<close>, the character
  before the position \<open>p\<close> (None at the start of the input), the rest of the input \<open>s\<close>
  and the captures \<open>c\<close>.
\<close>

function (sequential) m ::
  "bool \<Rightarrow> bool \<Rightarrow> item list \<Rightarrow> char option \<Rightarrow> string \<Rightarrow> caps \<Rightarrow> (char option \<times> string \<times> caps) option"
where
  "m ic ml [] p s c = Some (p, s, c)"
| "m ic ml (EndG n s0 # k) p s c = m ic ml k p s (c(n \<mapsto> take (length s0 - length s) s0))"
| "m ic ml (R (Lit []) # k) p s c = m ic ml k p s c"
| "m ic ml (R (Lit (a # as)) # k) p [] c = None"
| "m ic ml (R (Lit (a # as)) # k) p (x # xs) c =
     (if (if ic then canon x = canon a else x = a) then m ic ml (R (Lit as) # k) (Some x) xs c else None)"
| "m ic ml (R (Chars cl) # k) p [] c = None"
| "m ic ml (R (Chars cl) # k) p (x # xs) c =
     (if in_class ic cl x then m ic ml k (Some x) xs c else None)"
| "m ic ml (R (Quant cl mn mx g) # k) p [] c = (if mn = 0 then m ic ml k p [] c else None)"
| "m ic ml (R (Quant cl mn mx g) # k) p (x # xs) c =
     (if 0 < mn then
        (if in_class ic cl x then m ic ml (R (Quant cl (mn - 1) (dec mx) g) # k) (Some x) xs c else None)
      else if in_class ic cl x \<and> mx \<noteq> Some 0 then
        (if g then
           (case m ic ml (R (Quant cl 0 (dec mx) g) # k) (Some x) xs c of
              Some r \<Rightarrow> Some r
            | None \<Rightarrow> m ic ml k p (x # xs) c)
         else
           (case m ic ml k p (x # xs) c of
              Some r \<Rightarrow> Some r
            | None \<Rightarrow> m ic ml (R (Quant cl 0 (dec mx) g) # k) (Some x) xs c))
      else m ic ml k p (x # xs) c)"
| "m ic ml (R Bol # k) p s c = (if at_bol ml p then m ic ml k p s c else None)"
| "m ic ml (R Eol # k) p s c = (if at_eol ml s then m ic ml k p s c else None)"
| "m ic ml (R WordB # k) p s c = (if word_before p \<noteq> word_after s then m ic ml k p s c else None)"
| "m ic ml (R (Grp n r) # k) p s c = m ic ml (R r # EndG n s # k) p s c"
| "m ic ml (R (Seq a b) # k) p s c = m ic ml (R a # R b # k) p s c"
| "m ic ml (R (Alt a b) # k) p s c =
     (case m ic ml (R a # k) p s c of Some r \<Rightarrow> Some r | None \<Rightarrow> m ic ml (R b # k) p s c)"
| "m ic ml (R (Look r) # k) p s c =
     (case m ic ml [R r] p s c of None \<Rightarrow> None | Some (p', s', c') \<Rightarrow> m ic ml k p s c')"
  by pat_completeness auto
termination
  by (relation "inv_image (less_than <*lex*> less_than)
        (\<lambda>(ic, ml, k, p, s, c). (sum_list (map isize k), length s))") auto


definition match_at ::
  "bool \<Rightarrow> bool \<Rightarrow> rx \<Rightarrow> char option \<Rightarrow> string \<Rightarrow> (char option \<times> string \<times> caps) option" where
  "match_at ic ml r p s = m ic ml [R r] p s (\<lambda>n. None)"

text \<open>
  A hit of a search: the text skipped before the match, the matched text, the captures,
  and the position after the match (the character before it and the rest of the input).
\<close>

datatype hit = Hit string string caps "char option" string

text \<open>
  \<^verbatim>\<open>RegExpBuiltinExec\<close> without the sticky flag: try the position \<^verbatim>\<open>lastIndex\<close>, then each
  later one, the end of the input included.
\<close>

fun search :: "bool \<Rightarrow> bool \<Rightarrow> rx \<Rightarrow> char option \<Rightarrow> string \<Rightarrow> hit option" where
  "search ic ml r p [] =
     (case match_at ic ml r p [] of
        None \<Rightarrow> None
      | Some (p', s', g) \<Rightarrow> Some (Hit [] [] g p' s'))"
| "search ic ml r p (x # xs) =
     (case match_at ic ml r p (x # xs) of
        Some (p', s', g) \<Rightarrow> Some (Hit [] (take (length (x # xs) - length s') (x # xs)) g p' s')
      | None \<Rightarrow>
          (case search ic ml r (Some x) xs of
             None \<Rightarrow> None
           | Some (Hit sk mt g p' s') \<Rightarrow> Some (Hit (x # sk) mt g p' s')))"



lemma m_suffix: "m ic ml k p s c = Some (p', s', c') \<Longrightarrow> \<exists>u. s = u @ s'"
  by (induction ic ml k p s c arbitrary: p' s' c' rule: m.induct)
     (auto split: if_splits option.splits)

lemma match_at_split:
  assumes "match_at ic ml r p s = Some (p', s', g)"
  shows "s = take (length s - length s') s @ s'"
proof -
  from assms obtain u where "s = u @ s'"
    unfolding match_at_def using m_suffix by blast
  then show ?thesis by simp
qed

lemma search_split:
  "search ic ml r p s = Some (Hit sk mt g p' s') \<Longrightarrow> s = sk @ mt @ s'"
proof (induction s arbitrary: p sk)
  case Nil
  then show ?case
    by (auto split: option.splits dest: match_at_split)
next
  case (Cons x xs)
  show ?case
  proof (cases "match_at ic ml r p (x # xs)")
    case None
    with Cons.prems obtain sk' where
      "search ic ml r (Some x) xs = Some (Hit sk' mt g p' s')" "sk = x # sk'"
      by (auto split: option.splits hit.splits)
    with Cons.IH show ?thesis by auto
  next
    case (Some a)
    obtain p1 s1 g1 where a: "a = (p1, s1, g1)" by (cases a)
    with Some Cons.prems have "sk = []" "mt = take (length (x # xs) - length s1) (x # xs)" "s' = s1"
      by auto
    with match_at_split[OF Some[unfolded a]] show ?thesis by simp
  qed
qed

text \<open>The least number of characters a match of a pattern takes.\<close>


fun minlen :: "rx \<Rightarrow> nat" where
  "minlen (Lit l) = length l"
| "minlen (Chars cl) = 1"
| "minlen (Quant cl mn mx g) = mn"
| "minlen (Grp n r) = minlen r"
| "minlen (Seq a b) = minlen a + minlen b"
| "minlen (Alt a b) = min (minlen a) (minlen b)"
| "minlen r = 0"

fun iminlen :: "item \<Rightarrow> nat" where
  "iminlen (R r) = minlen r"
| "iminlen (EndG n s) = 0"

lemma m_minlen:
  "m ic ml k p s c = Some (p', s', c') \<Longrightarrow> length s' + sum_list (map iminlen k) \<le> length s"
proof (induction ic ml k p s c arbitrary: p' s' c' rule: m.induct)
  case (9 ic ml cl mn mx g k p x xs c)
  then show ?case
    by (fastforce split: if_splits option.splits)
next
  case (16 ic ml r k p s c)
  then show ?case
    by (fastforce split: if_splits option.splits)
qed (fastforce split: if_splits option.splits)+

lemma search_minlen:
  "search ic ml r p s = Some (Hit sk mt g p' s') \<Longrightarrow> length s' + minlen r \<le> length s"
proof (induction s arbitrary: p sk)
  case Nil
  then show ?case
    using m_minlen[of ic ml "[R r]" p "[]" "\<lambda>n. None"]
    by (auto simp: match_at_def split: option.splits)
next
  case (Cons x xs)
  then show ?case
    using m_minlen[of ic ml "[R r]" p "x # xs" "\<lambda>n. None"]
    by (fastforce simp: match_at_def split: option.splits hit.splits)
qed


text \<open>
  \<^verbatim>\<open>String.prototype.replace\<close> with a global pattern and a function: every match, left to
  right, is replaced by what the function returns for it; after an empty match the search
  moves on by one character. The function's effects on the variables it closes over are
  the state \<open>st\<close>.
\<close>

function replace_g ::
  "bool \<Rightarrow> bool \<Rightarrow> rx \<Rightarrow> (string \<Rightarrow> caps \<Rightarrow> 'st \<Rightarrow> string \<times> 'st) \<Rightarrow> char option \<Rightarrow> string \<Rightarrow> 'st
     \<Rightarrow> string \<times> 'st"
where
  "replace_g ic ml r cb p s st =
     (case search ic ml r p s of
        None \<Rightarrow> (s, st)
      | Some (Hit sk mt g p' s') \<Rightarrow>
          (case cb mt g st of (rep, st1) \<Rightarrow>
             if mt = [] then
               (case s' of
                  [] \<Rightarrow> (sk @ rep, st1)
                | x # xs \<Rightarrow>
                    (case replace_g ic ml r cb (Some x) xs st1 of (out, st2) \<Rightarrow> (sk @ rep @ x # out, st2)))
             else
               (case replace_g ic ml r cb p' s' st1 of (out, st2) \<Rightarrow> (sk @ rep @ out, st2))))"
  by pat_completeness auto
termination
proof (relation "measure (\<lambda>(ic, ml, r, cb, p, s, st). length s)", goal_cases)
  case 1
  then show ?case by simp
next
  case (2 ic ml r cb p s st h sk mt g p' s' x1 x2 x xs)
  then show ?case using search_split[of ic ml r p s sk mt g p' s'] by simp
next
  case (3 ic ml r cb p s st h sk mt g p' s' x1 x2)
  then show ?case using search_split[of ic ml r p s sk mt g p' s'] by simp
qed


text \<open>
  When the function sets a flag at every match it does not return as it was, and the flag
  is not set in the end, the text is the one given.
\<close>




lemma replace_g_unflagged:
  "(\<And>mt g st. flag st \<Longrightarrow> flag (snd (cb mt g st))) \<Longrightarrow>
   (\<And>mt g st. \<not> flag (snd (cb mt g st)) \<Longrightarrow> fst (cb mt g st) = mt) \<Longrightarrow>
   \<not> flag (snd (replace_g ic ml r cb p s st)) \<Longrightarrow>
   fst (replace_g ic ml r cb p s st) = s \<and> \<not> flag st"
proof (induction ic ml r cb p s st rule: replace_g.induct)
  case (1 ic ml r cb p s st)
  note mono = "1.prems"(1) and same = "1.prems"(2) and nf = "1.prems"(3)
  show ?case
  proof (cases "search ic ml r p s")
    case None
    with nf show ?thesis by (simp add: replace_g.simps[of ic ml r cb p s st])
  next
    case (Some h)
    obtain sk mt g p' s' where h: "h = Hit sk mt g p' s'" by (cases h)
    obtain rep st1 where cb: "cb mt g st = (rep, st1)" by (cases "cb mt g st")
    have split: "s = sk @ mt @ s'" using search_split Some h by blast
    show ?thesis
    proof (cases "mt = []")
      case True
      note mt = True
      show ?thesis
      proof (cases s')
        case Nil
        with Some h cb mt nf have nf: "\<not> flag st1"
          by (simp add: replace_g.simps[of ic ml r cb p s st])
        with same[of mt g st] mono[of st mt g] cb have "rep = mt" "\<not> flag st" by auto
        with Some h cb mt Nil split show ?thesis
          by (simp add: replace_g.simps[of ic ml r cb p s st])
      next
        case (Cons x xs)
        obtain out st2 where rec: "replace_g ic ml r cb (Some x) xs st1 = (out, st2)"
          by (cases "replace_g ic ml r cb (Some x) xs st1")
        with Some h cb mt Cons nf have "\<not> flag st2"
          by (simp add: replace_g.simps[of ic ml r cb p s st])
        with "1.IH"(1)[OF Some h cb[symmetric] mt Cons mono same] rec
        have "out = xs" "\<not> flag st1" by auto
        with same[of mt g st] mono[of st mt g] cb have "rep = mt" "\<not> flag st" by auto
        with Some h cb mt Cons split rec \<open>out = xs\<close> show ?thesis
          by (simp add: replace_g.simps[of ic ml r cb p s st])
      qed
    next
      case False
      obtain out st2 where rec: "replace_g ic ml r cb p' s' st1 = (out, st2)"
        by (cases "replace_g ic ml r cb p' s' st1")
      with Some h cb False nf have "\<not> flag st2"
        by (simp add: replace_g.simps[of ic ml r cb p s st])
      with "1.IH"(2)[OF Some h cb[symmetric] False mono same] rec
      have "out = s'" "\<not> flag st1" by auto
      with same[of mt g st] mono[of st mt g] cb have "rep = mt" "\<not> flag st" by auto
      with Some h cb False split rec \<open>out = s'\<close> show ?thesis
        by (simp add: replace_g.simps[of ic ml r cb p s st])
    qed
  qed
qed


declare replace_g.simps [simp del]

text \<open>
  Equations for evaluation: the replacement function is entered once the match is known.
\<close>


definition replace_step ::
  "bool \<Rightarrow> bool \<Rightarrow> rx \<Rightarrow> (string \<Rightarrow> caps \<Rightarrow> 'st \<Rightarrow> string \<times> 'st) \<Rightarrow> string \<Rightarrow> string \<Rightarrow> char option
     \<Rightarrow> string \<Rightarrow> string \<times> 'st \<Rightarrow> string \<times> 'st" where
  "replace_step ic ml r cb sk mt p' s' rs =
     (case rs of (rep, st1) \<Rightarrow>
        if mt = [] then
          (case s' of
             [] \<Rightarrow> (sk @ rep, st1)
           | x # xs \<Rightarrow>
               (case replace_g ic ml r cb (Some x) xs st1 of (out, st2) \<Rightarrow> (sk @ rep @ x # out, st2)))
        else
          (case replace_g ic ml r cb p' s' st1 of (out, st2) \<Rightarrow> (sk @ rep @ out, st2)))"

definition replace_hit ::
  "bool \<Rightarrow> bool \<Rightarrow> rx \<Rightarrow> (string \<Rightarrow> caps \<Rightarrow> 'st \<Rightarrow> string \<times> 'st) \<Rightarrow> string \<Rightarrow> 'st \<Rightarrow> hit option
     \<Rightarrow> string \<times> 'st" where
  "replace_hit ic ml r cb s st h =
     (case h of
        None \<Rightarrow> (s, st)
      | Some (Hit sk mt g p' s') \<Rightarrow> replace_step ic ml r cb sk mt p' s' (cb mt g st))"

lemma replace_g_code [code]:
  "replace_g ic ml r cb p s st = replace_hit ic ml r cb s st (search ic ml r p s)"
  by (simp add: replace_g.simps[of ic ml r cb p s st] replace_hit_def replace_step_def
      split: option.splits hit.splits)

lemma replace_hit_code [code]:
  "replace_hit ic ml r cb s st None = (s, st)"
  "replace_hit ic ml r cb s st (Some (Hit sk mt g p' s')) =
     replace_step ic ml r cb sk mt p' s' (cb mt g st)"
  by (simp_all add: replace_hit_def)


lemma replace_g_fst_flag:
  assumes "\<And>mt g st. fst st \<Longrightarrow> fst (snd (cb mt g st))"
    and "\<And>mt g st. \<not> fst (snd (cb mt g st)) \<Longrightarrow> fst (cb mt g st) = mt"
    and "replace_g ic ml r cb p s st = (out, (ch, n))"
    and "\<not> ch"
  shows "out = s \<and> \<not> fst st"
  using replace_g_unflagged[of fst cb ic ml r p s st] assms by simp


text \<open>The matches a global replace visits, in order: the matched text and the captures.\<close>

function hits :: "bool \<Rightarrow> bool \<Rightarrow> rx \<Rightarrow> char option \<Rightarrow> string \<Rightarrow> (string \<times> caps) list" where
  "hits ic ml r p s =
     (case search ic ml r p s of
        None \<Rightarrow> []
      | Some (Hit sk mt g p' s') \<Rightarrow>
          (mt, g) #
          (if mt = [] then (case s' of [] \<Rightarrow> [] | x # xs \<Rightarrow> hits ic ml r (Some x) xs)
           else hits ic ml r p' s'))"
  by pat_completeness auto
termination
proof (relation "measure (\<lambda>(ic, ml, r, p, s). length s)", goal_cases)
  case 1
  then show ?case by simp
next
  case (2 ic ml r p s h sk mt g p' s' x xs)
  then show ?case using search_split[of ic ml r p s sk mt g p' s'] by simp
next
  case (3 ic ml r p s h sk mt g p' s')
  then show ?case using search_split[of ic ml r p s sk mt g p' s'] by simp
qed

declare hits.simps [simp del]

text \<open>The same with a replacement string that has no \<^verbatim>\<open>$\<close>.\<close>

definition replace_str :: "bool \<Rightarrow> bool \<Rightarrow> rx \<Rightarrow> string \<Rightarrow> string \<Rightarrow> string" where
  "replace_str ic ml r rep s = fst (replace_g ic ml r (\<lambda>mt g u. (rep, u)) None s ())"

text \<open>\<^verbatim>\<open>replace\<close> with a pattern that is not global: the first match only.\<close>

definition replace_first :: "bool \<Rightarrow> bool \<Rightarrow> rx \<Rightarrow> string \<Rightarrow> string \<Rightarrow> string" where
  "replace_first ic ml r rep s =
     (case search ic ml r None s of
        None \<Rightarrow> s
      | Some (Hit sk mt g p' s') \<Rightarrow> sk @ rep @ s')"

text \<open>\<^verbatim>\<open>match\<close> with a pattern that is not global: the matched text and the captures.\<close>

definition match_first :: "bool \<Rightarrow> bool \<Rightarrow> rx \<Rightarrow> string \<Rightarrow> (string \<times> caps) option" where
  "match_first ic ml r s =
     (case search ic ml r None s of
        None \<Rightarrow> None
      | Some (Hit sk mt g p' s') \<Rightarrow> Some (mt, g))"

subsection \<open>Building patterns\<close>

fun seqs :: "rx list \<Rightarrow> rx" where
  "seqs [] = Lit []"
| "seqs [r] = r"
| "seqs (r # rs) = Seq r (seqs rs)"

definition ws :: cclass where "ws = CC False [Esc_s]"
definition anyc :: cclass where "anyc = CC False [Esc_s, Esc_S]"
definition wordc :: cclass where "wordc = CC False [Esc_w]"
definition one :: "char \<Rightarrow> cclass" where "one a = CC False [Ch a]"
definition notc :: "char \<Rightarrow> cclass" where "notc a = CC True [Ch a]"
definition quote :: cclass where "quote = CC False [Ch CHR 0x22, Ch CHR 0x27]"

definition star :: "cclass \<Rightarrow> rx" where "star cl = Quant cl 0 None True"
definition lazy :: "cclass \<Rightarrow> rx" where "lazy cl = Quant cl 0 None False"
definition plus :: "cclass \<Rightarrow> rx" where "plus cl = Quant cl 1 None True"
definition opt :: "char \<Rightarrow> rx" where "opt a = Quant (one a) 0 (Some 1) True"

text \<open>A template literal prints a capture that took no part in the match as \<^verbatim>\<open>undefined\<close>.\<close>

definition tmpl :: "string option \<Rightarrow> string" where
  "tmpl v = (case v of None \<Rightarrow> ''undefined'' | Some s \<Rightarrow> s)"

section \<open>replace-hints.mjs\<close>

record flagged =
  changed :: bool

record texted = flagged +
  "text" :: string

record hint_result = texted +
  startCount :: nat
  endCount :: nat

text \<open>\<^verbatim>\<open>/^(\s*)\{\%\s*hint\b[^%]*\%\}/gm\<close> and \<^verbatim>\<open>/^(\s*)\{\%\s*endhint\s*\%\}/gm\<close>\<close>

definition startTag :: rx where
  "startTag = seqs [Bol, Grp 1 (star ws), Lit ''{%'', star ws, Lit ''hint'', WordB,
     star (notc CHR ''%''), Lit ''%}'']"

definition endTag :: rx where
  "endTag = seqs [Bol, Grp 1 (star ws), Lit ''{%'', star ws, Lit ''endhint'', star ws, Lit ''%}'']"

text \<open>
  The two replacement functions. The state is the flag \<^verbatim>\<open>changed\<close> and the counter the
  function adds to.
\<close>

definition start_cb :: "string \<Rightarrow> caps \<Rightarrow> bool \<times> nat \<Rightarrow> string \<times> bool \<times> nat" where
  "start_cb full g st = (tmpl (g 1) @ ''<Note>'', (True, snd st + 1))"

definition end_cb :: "string \<Rightarrow> caps \<Rightarrow> bool \<times> nat \<Rightarrow> string \<times> bool \<times> nat" where
  "end_cb full g st = (tmpl (g 1) @ ''</Note>'', (True, snd st + 1))"

definition processContent_hints :: "string \<Rightarrow> hint_result" where
  "processContent_hints text0 =
     (case replace_g False True startTag start_cb None text0 (False, 0) of
        (text1, (changed1, startCount1)) \<Rightarrow>
     (case replace_g False True endTag end_cb None text1 (changed1, 0) of
        (text2, (changed2, endCount2)) \<Rightarrow>
     \<lparr>changed = changed2, text = text2, startCount = startCount1, endCount = endCount2\<rparr>))"


section \<open>remove-arcade-iframes.mjs\<close>

record arcade_result = texted +
  replaced :: nat

text \<open>
  \<^verbatim>\<open>/^(\s*)<iframe\b[^>]*\ssrc=["'](https?:\/\/app\.arcade\.software\/[^"]+)["'][\s\S]*?<\/iframe>\s*$/gmi\<close>
\<close>

definition iframeRegex :: rx where
  "iframeRegex = seqs [Bol, Grp 1 (star ws), Lit ''<iframe'', WordB, star (notc CHR ''>''),
     Chars ws, Lit ''src='', Chars quote,
     Grp 2 (seqs [Lit ''http'', opt CHR ''s'', Lit ''://app.arcade.software/'', plus (notc CHR 0x22)]),
     Chars quote, lazy anyc, Lit ''</iframe>'', star ws, Eol]"

definition arcade_cb :: "string \<Rightarrow> caps \<Rightarrow> bool \<times> nat \<Rightarrow> string \<times> bool \<times> nat" where
  "arcade_cb full g st = (tmpl (g 1) @ tmpl (g 2), (True, snd st + 1))"

definition processContent_arcade :: "string \<Rightarrow> arcade_result" where
  "processContent_arcade text0 =
     (case replace_g True True iframeRegex arcade_cb None text0 (False, 0) of
        (text1, (changed1, replaced1)) \<Rightarrow>
     \<lparr>changed = changed1, text = text1, replaced = replaced1\<rparr>)"

section \<open>replace-embeds.mjs\<close>

record embed_result = texted +
  blocks :: nat
  singles :: nat

definition htmlEscapeAttribute :: "string \<Rightarrow> string" where
  "htmlEscapeAttribute v =
     replaceAll CHR ''>'' ''&gt;'' (replaceAll CHR ''<'' ''&lt;''
       (replaceAll CHR 0x22 ''&quot;'' (replaceAll CHR ''&'' ''&amp;'' v)))"

text \<open>\<^verbatim>\<open>/(\w+)\s*=\s*("([\s\S]*?)"|'([\s\S]*?)')/g\<close>\<close>

definition attrRegex :: rx where
  "attrRegex = seqs [Grp 1 (plus wordc), star ws, Lit ''='', star ws,
     Grp 2 (Alt (seqs [Lit [CHR 0x22], Grp 3 (lazy anyc), Lit [CHR 0x22]])
                (seqs [Lit [CHR 0x27], Grp 4 (lazy anyc), Lit [CHR 0x27]]))]"

text \<open>
  The loop \<^verbatim>\<open>while ((m = regex.exec(attrText)) !== null)\<close>: each turn searches from where
  the last match ended. It ends because every match of the pattern takes a character.
  \<^verbatim>\<open>m[3] ?? m[4] ?? ''\<close> reads the capture of the alternative that matched.
\<close>

function parseEmbedAttrs_loop :: "char option \<Rightarrow> string \<Rightarrow> (string \<rightharpoonup> string) \<Rightarrow> (string \<rightharpoonup> string)" where
  "parseEmbedAttrs_loop p s attrs =
     (case search False False attrRegex p s of
        None \<Rightarrow> attrs
      | Some (Hit sk mt g p' s') \<Rightarrow>
          parseEmbedAttrs_loop p' s'
            (attrs(tmpl (g 1) \<mapsto>
               trim (case g 3 of Some v \<Rightarrow> v | None \<Rightarrow> (case g 4 of Some v \<Rightarrow> v | None \<Rightarrow> [])))))"
  by pat_completeness auto
termination
proof (relation "measure (\<lambda>(p, s, attrs). length s)", goal_cases)
  case 1
  then show ?case by simp
next
  case (2 p s attrs h sk mt g p' s')
  then show ?case
    using search_minlen[of False False attrRegex p s sk mt g p' s']
    by (simp add: attrRegex_def plus_def star_def)
qed

declare parseEmbedAttrs_loop.simps [simp del]

definition parseEmbedAttrs :: "string \<Rightarrow> (string \<rightharpoonup> string)" where
  "parseEmbedAttrs attrText = parseEmbedAttrs_loop None attrText Map.empty"

definition buildIframe :: "string \<Rightarrow> string \<Rightarrow> string \<Rightarrow> string" where
  \<open>buildIframe url titleFallback indent =
     (let title = (if titleFallback \<noteq> [] then titleFallback else ''Embedded content'');
          src = trim url;
          attrs = ''className="w-full aspect-video rounded-xl" src="'' @ htmlEscapeAttribute src
            @ ''" title="'' @ htmlEscapeAttribute title
            @ ''" frameBorder="0" allow="accelerometer; autoplay; clipboard-write; encrypted-media; gyroscope; picture-in-picture" allowFullScreen''
      in indent @ ''<iframe '' @ attrs @ ''></iframe>'')\<close>

text \<open>
  \<^verbatim>\<open>/^(\s*)\{\%\s*embed\b([^%]*)\%\}([\s\S]*?)^(\s*)\{\%\s*endembed\s*\%\}/gmi\<close>,
  \<^verbatim>\<open>/^(\s*)\{\%\s*embed\b([^%]*)\%\}\s*$/gmi\<close> and \<^verbatim>\<open>/^[\n\r\s]+|[\n\r\s]+$/g\<close>
\<close>

definition blockRegex :: rx where
  "blockRegex = seqs [Bol, Grp 1 (star ws), Lit ''{%'', star ws, Lit ''embed'', WordB,
     Grp 2 (star (notc CHR ''%'')), Lit ''%}'', Grp 3 (lazy anyc),
     Bol, Grp 4 (star ws), Lit ''{%'', star ws, Lit ''endembed'', star ws, Lit ''%}'']"

definition singleRegex :: rx where
  "singleRegex = seqs [Bol, Grp 1 (star ws), Lit ''{%'', star ws, Lit ''embed'', WordB,
     Grp 2 (star (notc CHR ''%'')), Lit ''%}'', star ws, Eol]"

definition nrs :: cclass where
  "nrs = CC False [Ch CHR 0x0A, Ch CHR 0x0D, Esc_s]"

definition edgeSpace :: rx where
  "edgeSpace = Alt (Seq Bol (plus nrs)) (Seq (plus nrs) Eol)"

text \<open>The captures 1 to 3 of the two patterns take part in every match.\<close>

definition grp :: "caps \<Rightarrow> nat \<Rightarrow> string" where
  "grp g n = (case g n of Some v \<Rightarrow> v | None \<Rightarrow> [])"

definition attr_or_empty :: "(string \<rightharpoonup> string) \<Rightarrow> string \<Rightarrow> string" where
  "attr_or_empty attrs key = (case attrs key of Some v \<Rightarrow> v | None \<Rightarrow> [])"

definition block_cb :: "string \<Rightarrow> caps \<Rightarrow> bool \<times> nat \<Rightarrow> string \<times> bool \<times> nat" where
  "block_cb full g st =
     (let attrs = parseEmbedAttrs (grp g 2);
          url = attr_or_empty attrs ''url'';
          caption = (if trim (attr_or_empty attrs ''caption'') \<noteq> []
                     then trim (attr_or_empty attrs ''caption'')
                     else trim (replace_str False False edgeSpace [] (grp g 3)))
      in if url = [] then (full, st)
         else (buildIframe url caption (tmpl (g 1)), (True, snd st + 1)))"

definition single_cb :: "string \<Rightarrow> caps \<Rightarrow> bool \<times> nat \<Rightarrow> string \<times> bool \<times> nat" where
  "single_cb full g st =
     (let attrs = parseEmbedAttrs (grp g 2);
          url = attr_or_empty attrs ''url'';
          caption = (if trim (attr_or_empty attrs ''caption'') \<noteq> []
                     then trim (attr_or_empty attrs ''caption'')
                     else [])
      in if url = [] then (full, st)
         else (buildIframe url caption (tmpl (g 1)), (True, snd st + 1)))"

definition processContent_embeds :: "string \<Rightarrow> embed_result" where
  "processContent_embeds text0 =
     (case replace_g True True blockRegex block_cb None text0 (False, 0) of
        (text1, (changed1, blocks1)) \<Rightarrow>
     (case replace_g True True singleRegex single_cb None text1 (changed1, 0) of
        (text2, (changed2, singles2)) \<Rightarrow>
     \<lparr>changed = changed2, text = text2, blocks = blocks1, singles = singles2\<rparr>))"


section \<open>fix-images.mjs\<close>

record image_result = flagged +
  content :: string
  figureUnwrapped :: nat
  imgsNormalized :: nat

definition htmlEntityEscape :: "string \<Rightarrow> string" where
  "htmlEntityEscape t =
     replaceAll CHR ''>'' ''&gt;'' (replaceAll CHR ''<'' ''&lt;''
       (replaceAll CHR 0x22 ''&quot;'' (replaceAll CHR ''&'' ''&amp;'' t)))"

text \<open>\<^verbatim>\<open>/<[^>]*>/g\<close>\<close>

definition tagRegex :: rx where
  "tagRegex = seqs [Lit ''<'', star (notc CHR ''>''), Lit ''>'']"

definition stripHtmlTags :: "string \<Rightarrow> string" where
  "stripHtmlTags t = replace_str False False tagRegex [] t"

text \<open>
  The patterns of \<^verbatim>\<open>normalizeImgTag\<close>: \<^verbatim>\<open>/^<img\b([\s\S]*?)\/?\s*>$/i\<close>, \<^verbatim>\<open>/^<img\b/i\<close>, \<^verbatim>\<open>/>\s*$/\<close>,
  \<^verbatim>\<open>/\salt\s*=\s*("[\s\S]*?"|'[\s\S]*?')/g\<close>, \<^verbatim>\<open>/\s*\/\s*(?=>|$)/g\<close> and \<^verbatim>\<open>/\s{2,}/g\<close>
\<close>

definition imgTagRegex :: rx where
  "imgTagRegex = seqs [Bol, Lit ''<img'', WordB, Grp 1 (lazy anyc), opt CHR ''/'', star ws, Lit ''>'', Eol]"

definition imgOpenRegex :: rx where
  "imgOpenRegex = seqs [Bol, Lit ''<img'', WordB]"

definition closeRegex :: rx where
  "closeRegex = seqs [Lit ''>'', star ws, Eol]"

definition altAttrRegex :: rx where
  "altAttrRegex = seqs [Chars ws, Lit ''alt'', star ws, Lit ''='', star ws,
     Grp 1 (Alt (seqs [Lit [CHR 0x22], lazy anyc, Lit [CHR 0x22]])
                (seqs [Lit [CHR 0x27], lazy anyc, Lit [CHR 0x27]]))]"

definition slashRegex :: rx where
  "slashRegex = seqs [star ws, Lit ''/'', star ws, Look (Alt (Lit ''>'') Eol)]"

definition spacesRegex :: rx where
  "spacesRegex = Quant ws 2 None True"

text \<open>\<^verbatim>\<open>substring(start, end)\<close>: both indices are clamped to the length and swapped if needed.\<close>

definition substring :: "nat \<Rightarrow> nat \<Rightarrow> string \<Rightarrow> string" where
  "substring a b s =
     (let a' = min a (length s); b' = min b (length s)
      in take (max a' b' - min a' b') (drop (min a' b') s))"

text \<open>\<^verbatim>\<open>raw.substring(1, raw.length - 1).trim()\<close>: the value without its quotes, trimmed.\<close>

definition alt_value :: "string \<Rightarrow> string" where
  "alt_value raw = trim (substring 1 (length raw - 1) raw)"

text \<open>
  The loop \<^verbatim>\<open>while ((m = altAttrRegex.exec(attrStringOriginal)) !== null)\<close>. It ends because
  every match of the pattern takes a character.
\<close>

function collectAlts :: "char option \<Rightarrow> string \<Rightarrow> string list \<Rightarrow> string list" where
  "collectAlts p s alts =
     (case search False False altAttrRegex p s of
        None \<Rightarrow> alts
      | Some (Hit sk mt g p' s') \<Rightarrow>
          (let raw = grp g 1;
               val = alt_value raw
           in collectAlts p' s' (if 0 < length val then alts @ [val] else alts)))"
  by pat_completeness auto
termination
proof (relation "measure (\<lambda>(p, s, alts). length s)", goal_cases)
  case 1
  then show ?case by simp
next
  case (2 p s alts h sk mt g p' s' raw val)
  then show ?case
    using search_minlen[of False False altAttrRegex p s sk mt g p' s']
    by (simp add: altAttrRegex_def star_def)
qed

declare collectAlts.simps [simp del]

definition chooseAlt :: "string list \<Rightarrow> string \<Rightarrow> string" where
  "chooseAlt alts fallbackAlt =
     (let chosenAlt = (if 0 < length alts then hd alts else [])
      in if fallbackAlt \<noteq> [] \<and> 0 < length (trim fallbackAlt) then
           (if chosenAlt = [] then trim fallbackAlt
            else if \<not> includes_str (toLowerCase chosenAlt) (toLowerCase (trim fallbackAlt))
              then trim (chosenAlt @ '' '' @ trim fallbackAlt)
            else chosenAlt)
         else chosenAlt)"

definition attrStringOriginal :: "string \<Rightarrow> string" where
  "attrStringOriginal imgTag =
     (case match_first True False imgTagRegex imgTag of
        Some (mt, g) \<Rightarrow> grp g 1
      | None \<Rightarrow> replace_first False False closeRegex [] (replace_first True False imgOpenRegex [] imgTag))"

text \<open>Remove alt attributes and stray slashes, normalize spacing.\<close>

definition cleanAttrs :: "string \<Rightarrow> string" where
  "cleanAttrs attrs0 =
     trim (replace_str False False spacesRegex '' ''
       (replace_str False False slashRegex []
         (replace_str False False altAttrRegex [] attrs0)))"

definition normalizeImgTag :: "string \<Rightarrow> string \<Rightarrow> string" where
  \<open>normalizeImgTag imgTag fallbackAlt =
     (let attrs0 = attrStringOriginal imgTag;
          alts = collectAlts None attrs0 [];
          chosenAlt = chooseAlt alts fallbackAlt;
          attrString = cleanAttrs attrs0;
          attrsPart = (if 0 < length attrString then '' '' @ attrString else []);
          altPart = '' alt="'' @ htmlEntityEscape chosenAlt @ ''"''
      in ''<img'' @ attrsPart @ altPart @ '' />'')\<close>

text \<open>
  The patterns of \<^verbatim>\<open>processFileContent\<close>: \<^verbatim>\<open>/<figure\b[^>]*>([\s\S]*?)<\/figure>/g\<close>,
  \<^verbatim>\<open>/<img\b[\s\S]*?>/i\<close> (and the same with \<^verbatim>\<open>gi\<close>),
  \<^verbatim>\<open>/<figcaption\b[^>]*>([\s\S]*?)<\/figcaption>/i\<close> and \<^verbatim>\<open>/^(\s*)/\<close>
\<close>

definition figureRegex :: rx where
  "figureRegex = seqs [Lit ''<figure'', WordB, star (notc CHR ''>''), Lit ''>'',
     Grp 1 (lazy anyc), Lit ''</figure>'']"

definition imgRegex :: rx where
  "imgRegex = seqs [Lit ''<img'', WordB, lazy anyc, Lit ''>'']"

definition captionRegex :: rx where
  "captionRegex = seqs [Lit ''<figcaption'', WordB, star (notc CHR ''>''), Lit ''>'',
     Grp 1 (lazy anyc), Lit ''</figcaption>'']"

definition indentRegex :: rx where
  "indentRegex = seqs [Bol, Grp 1 (star ws)]"

definition figure_cb :: "string \<Rightarrow> caps \<Rightarrow> bool \<times> nat \<Rightarrow> string \<times> bool \<times> nat" where
  "figure_cb full g st =
     (let inner = grp g 1
      in case match_first True False imgRegex inner of
           None \<Rightarrow> (full, st)
         | Some (originalImgTag, ig) \<Rightarrow>
             (let caption = (case match_first True False captionRegex inner of
                               None \<Rightarrow> []
                             | Some (cm, cg) \<Rightarrow> trim (stripHtmlTags (grp cg 1)));
                  normalizedImg = normalizeImgTag originalImgTag caption;
                  indent = (case match_first False False indentRegex full of
                              None \<Rightarrow> []
                            | Some (im, ng) \<Rightarrow> grp ng 1)
              in (indent @ normalizedImg, (True, snd st + 1))))"

definition img_cb :: "string \<Rightarrow> caps \<Rightarrow> bool \<times> nat \<Rightarrow> string \<times> bool \<times> nat" where
  "img_cb imgTag g st =
     (let normalized = normalizeImgTag imgTag []
      in (normalized, if normalized \<noteq> imgTag then (True, snd st + 1) else st))"

definition processFileContent :: "string \<Rightarrow> image_result" where
  "processFileContent content0 =
     (case replace_g False False figureRegex figure_cb None content0 (False, 0) of
        (content1, (changed1, figureUnwrapped1)) \<Rightarrow>
     (case replace_g True False imgRegex img_cb None content1 (changed1, 0) of
        (content2, (changed2, imgsNormalized2)) \<Rightarrow>
     \<lparr>changed = changed2, content = content2, figureUnwrapped = figureUnwrapped1,
        imgsNormalized = imgsNormalized2\<rparr>))"

section \<open>The file collector\<close>

text \<open>
  What \<^verbatim>\<open>readdirSync(dir, { withFileTypes: true })\<close> lists: entries with a name, and for a
  directory what listing it gives in turn. \<^verbatim>\<open>path.join\<close> of a directory and the name of one
  of its entries puts a separator between them.
\<close>

datatype entry = File string | Dir string "entry list"

definition path_join :: "string \<Rightarrow> string \<Rightarrow> string" where
  "path_join dirPath name = dirPath @ ''/'' @ name"

fun collectFiles :: "string \<Rightarrow> string list \<Rightarrow> entry list \<Rightarrow> string list \<Rightarrow> string list" where
  "collectFiles dirPath exts [] collected = collected"
| "collectFiles dirPath exts (File name # entries) collected =
     (if startsWith name ''.'' then collectFiles dirPath exts entries collected
      else collectFiles dirPath exts entries
             (if list_ex (\<lambda>e. endsWith (toLowerCase name) e) exts
              then collected @ [path_join dirPath name] else collected))"
| "collectFiles dirPath exts (Dir name sub # entries) collected =
     (if startsWith name ''.'' then collectFiles dirPath exts entries collected
      else collectFiles dirPath exts entries
             (collectFiles (path_join dirPath name) exts sub collected))"


text \<open>
  The chains of names that lead from the listed directory to a file of the tree, and the
  path that joining a chain to the directory gives.
\<close>


fun chains :: "entry list \<Rightarrow> string list list" where
  "chains [] = []"
| "chains (File name # entries) = [name] # chains entries"
| "chains (Dir name sub # entries) = map ((#) name) (chains sub) @ chains entries"

definition join_all :: "string \<Rightarrow> string list \<Rightarrow> string" where
  "join_all dirPath names = foldl path_join dirPath names"


section \<open>Unchanged texts\<close>

lemma start_cb_flag:
  "fst st \<Longrightarrow> fst (snd (start_cb mt g st))"
  "\<not> fst (snd (start_cb mt g st)) \<Longrightarrow> fst (start_cb mt g st) = mt"
  by (simp_all add: start_cb_def)

lemma end_cb_flag:
  "fst st \<Longrightarrow> fst (snd (end_cb mt g st))"
  "\<not> fst (snd (end_cb mt g st)) \<Longrightarrow> fst (end_cb mt g st) = mt"
  by (simp_all add: end_cb_def)

lemma arcade_cb_flag:
  "fst st \<Longrightarrow> fst (snd (arcade_cb mt g st))"
  "\<not> fst (snd (arcade_cb mt g st)) \<Longrightarrow> fst (arcade_cb mt g st) = mt"
  by (simp_all add: arcade_cb_def)

lemma block_cb_flag:
  "fst st \<Longrightarrow> fst (snd (block_cb mt g st))"
  "\<not> fst (snd (block_cb mt g st)) \<Longrightarrow> fst (block_cb mt g st) = mt"
  by (simp_all add: block_cb_def Let_def split: if_splits)

lemma single_cb_flag:
  "fst st \<Longrightarrow> fst (snd (single_cb mt g st))"
  "\<not> fst (snd (single_cb mt g st)) \<Longrightarrow> fst (single_cb mt g st) = mt"
  by (simp_all add: single_cb_def Let_def split: if_splits)

lemma img_cb_flag:
  "fst st \<Longrightarrow> fst (snd (img_cb mt g st))"
  "\<not> fst (snd (img_cb mt g st)) \<Longrightarrow> fst (img_cb mt g st) = mt"
  by (simp_all add: img_cb_def Let_def split: if_splits)

lemma figure_cb_flag:
  "fst st \<Longrightarrow> fst (snd (figure_cb mt g st))"
  "\<not> fst (snd (figure_cb mt g st)) \<Longrightarrow> fst (figure_cb mt g st) = mt"
  by (cases "match_first True False imgRegex (grp g 1)", simp_all add: figure_cb_def Let_def split_def)+

text \<open>Two passes: the flag of the first is the one the second starts with.\<close>

lemma two_pass_unchanged:
  assumes f1: "\<And>mt g st. fst st \<Longrightarrow> fst (snd (cb1 mt g st))"
    and s1: "\<And>mt g st. \<not> fst (snd (cb1 mt g st)) \<Longrightarrow> fst (cb1 mt g st) = mt"
    and f2: "\<And>mt g st. fst st \<Longrightarrow> fst (snd (cb2 mt g st))"
    and s2: "\<And>mt g st. \<not> fst (snd (cb2 mt g st)) \<Longrightarrow> fst (cb2 mt g st) = mt"
    and p1: "replace_g ic1 ml1 r1 cb1 None t (False, 0 :: nat) = (t1, (c1, n1 :: nat))"
    and p2: "replace_g ic2 ml2 r2 cb2 None t1 (c1, 0 :: nat) = (t2, (c2, n2 :: nat))"
    and nc: "\<not> c2"
  shows "t2 = t"
proof -
  have a: "t2 = t1 \<and> \<not> fst (c1, 0 :: nat)"
    by (rule replace_g_fst_flag[OF f2 s2 p2 nc])
  then have "\<not> c1" by simp
  from replace_g_fst_flag[OF f1 s1 p1 this] have "t1 = t \<and> \<not> fst (False, 0 :: nat)" .
  with a show ?thesis by simp
qed

lemma hints_unchanged:
  assumes "\<not> changed (processContent_hints t)"
  shows "text (processContent_hints t) = t"
proof -
  obtain t1 c1 n1 where p1: "replace_g False True startTag start_cb None t (False, 0) = (t1, (c1, n1))"
    using prod.exhaust by metis
  obtain t2 c2 n2 where p2: "replace_g False True endTag end_cb None t1 (c1, 0) = (t2, (c2, n2))"
    using prod.exhaust by metis
  have r: "processContent_hints t = \<lparr>changed = c2, text = t2, startCount = n1, endCount = n2\<rparr>"
    by (simp add: processContent_hints_def p1 p2)
  with assms have "\<not> c2" by simp
  from two_pass_unchanged[OF start_cb_flag end_cb_flag p1 p2 this] r show ?thesis by simp
qed

lemma arcade_unchanged:
  assumes "\<not> changed (processContent_arcade t)"
  shows "text (processContent_arcade t) = t"
proof -
  obtain t1 c1 n1 where p1: "replace_g True True iframeRegex arcade_cb None t (False, 0) = (t1, (c1, n1))"
    using prod.exhaust by metis
  have r: "processContent_arcade t = \<lparr>changed = c1, text = t1, replaced = n1\<rparr>"
    by (simp add: processContent_arcade_def p1)
  with assms have "\<not> c1" by simp
  from replace_g_fst_flag[OF arcade_cb_flag p1 this] r show ?thesis by simp
qed

lemma embeds_unchanged:
  assumes "\<not> changed (processContent_embeds t)"
  shows "text (processContent_embeds t) = t"
proof -
  obtain t1 c1 n1 where p1: "replace_g True True blockRegex block_cb None t (False, 0) = (t1, (c1, n1))"
    using prod.exhaust by metis
  obtain t2 c2 n2 where p2: "replace_g True True singleRegex single_cb None t1 (c1, 0) = (t2, (c2, n2))"
    using prod.exhaust by metis
  have r: "processContent_embeds t = \<lparr>changed = c2, text = t2, blocks = n1, singles = n2\<rparr>"
    by (simp add: processContent_embeds_def p1 p2)
  with assms have "\<not> c2" by simp
  from two_pass_unchanged[OF block_cb_flag single_cb_flag p1 p2 this] r show ?thesis by simp
qed

lemma images_unchanged:
  assumes "\<not> changed (processFileContent t)"
  shows "content (processFileContent t) = t"
proof -
  obtain t1 c1 n1 where p1: "replace_g False False figureRegex figure_cb None t (False, 0) = (t1, (c1, n1))"
    using prod.exhaust by metis
  obtain t2 c2 n2 where p2: "replace_g True False imgRegex img_cb None t1 (c1, 0) = (t2, (c2, n2))"
    using prod.exhaust by metis
  have r: "processFileContent t =
      \<lparr>changed = c2, content = t2, figureUnwrapped = n1, imgsNormalized = n2\<rparr>"
    by (simp add: processFileContent_def p1 p2)
  with assms have "\<not> c2" by simp
  from two_pass_unchanged[OF figure_cb_flag img_cb_flag p1 p2 this] r show ?thesis by simp
qed

section \<open>Escaping\<close>


text \<open>The escaping in the words of the specification: character by character.\<close>

definition escape_char :: "char \<Rightarrow> string" where
  "escape_char c =
     (if c = CHR ''&'' then ''&amp;''
      else if c = CHR 0x22 then ''&quot;''
      else if c = CHR ''<'' then ''&lt;''
      else if c = CHR ''>'' then ''&gt;''
      else [c])"

lemma replaceAll_append: "replaceAll a r (x @ y) = replaceAll a r x @ replaceAll a r y"
  by (induction x) auto

lemma four_replaceAll:
  "replaceAll CHR ''>'' ''&gt;'' (replaceAll CHR ''<'' ''&lt;''
     (replaceAll CHR 0x22 ''&quot;'' (replaceAll CHR ''&'' ''&amp;'' v)))
   = concat (map escape_char v)"
  by (induction v) (simp_all add: escape_char_def replaceAll_append)

lemma escape_chars_kept:
  "CHR 0x22 \<notin> set (concat (map escape_char v)) \<and> CHR ''<'' \<notin> set (concat (map escape_char v))
   \<and> CHR ''>'' \<notin> set (concat (map escape_char v))"
  by (induction v) (auto simp: escape_char_def)


section \<open>Trimming and the alt values\<close>


lemma trimEnd_prefix: "\<exists>w. y = trimEnd y @ w"
proof -
  have "rev y = takeWhile is_space (rev y) @ dropWhile is_space (rev y)" by simp
  then have "y = rev (dropWhile is_space (rev y)) @ rev (takeWhile is_space (rev y))"
    by (metis rev_append rev_rev_ident)
  then show ?thesis unfolding trimEnd_def by blast
qed

lemma trim_ends:
  assumes "trim x \<noteq> []"
  shows "\<not> is_space (hd (trim x)) \<and> \<not> is_space (last (trim x))"
proof -
  let ?y = "dropWhile is_space x"
  have eq: "trim x = rev (dropWhile is_space (rev ?y))"
    by (simp add: trim_def trimEnd_def trimStart_def)
  have y: "?y \<noteq> []"
  proof (rule notI)
    assume a: "?y = []"
    show False using assms unfolding eq a by simp
  qed
  then have hy: "\<not> is_space (hd ?y)" using hd_dropWhile by blast
  obtain w where "?y = trimEnd ?y @ w" using trimEnd_prefix by blast
  with assms have "hd (trim x) = hd ?y"
    by (metis hd_append2 trim_def trimStart_def)
  moreover have "last (trim x) = hd (dropWhile is_space (rev ?y))"
    using assms by (simp add: trim_def trimEnd_def trimStart_def last_rev)
  moreover have "dropWhile is_space (rev ?y) \<noteq> []"
    using assms by (simp add: trim_def trimEnd_def trimStart_def)
  ultimately show ?thesis using hy hd_dropWhile by metis
qed

lemma trim_fixed:
  assumes "a \<noteq> []" "\<not> is_space (hd a)" "\<not> is_space (last a)"
  shows "trim a = a"
proof -
  from assms have 1: "dropWhile is_space a = a" by (cases a) auto
  from assms have "rev a \<noteq> []" "\<not> is_space (hd (rev a))" by (simp_all add: hd_rev)
  then have 2: "dropWhile is_space (rev a) = rev a" by (cases "rev a") auto
  show ?thesis by (simp add: trim_def trimEnd_def trimStart_def 1 2)
qed

lemma trim_Nil [simp]: "trim [] = []"
  by (simp add: trim_def trimEnd_def trimStart_def)

lemma trim_join:
  assumes "a \<noteq> []" "trim a = a" "b \<noteq> []" "trim b = b"
  shows "trim (a @ '' '' @ b) = a @ '' '' @ b"
proof -
  from assms trim_ends[of a] trim_ends[of b]
  have "\<not> is_space (hd a)" "\<not> is_space (last b)" by auto
  with assms show ?thesis by (intro trim_fixed) auto
qed

lemma trim_trim: "trim (trim x) = trim x"
proof (cases "trim x = []")
  case True
  have "trim [] = []" by (simp add: trim_def trimEnd_def trimStart_def)
  with True show ?thesis by simp
next
  case False
  with trim_ends[of x] show ?thesis by (intro trim_fixed) auto
qed


text \<open>
  The alt values of an attribute string in the words of the specification: the quoted
  values of the alt attributes in order of appearance, each without its quotes and trimmed.
\<close>

function altCaptures :: "char option \<Rightarrow> string \<Rightarrow> string list" where
  "altCaptures p s =
     (case search False False altAttrRegex p s of
        None \<Rightarrow> []
      | Some (Hit sk mt g p' s') \<Rightarrow> grp g 1 # altCaptures p' s')"
  by pat_completeness auto
termination
proof (relation "measure (\<lambda>(p, s). length s)", goal_cases)
  case 1
  then show ?case by simp
next
  case (2 p s h sk mt g p' s')
  then show ?case
    using search_minlen[of False False altAttrRegex p s sk mt g p' s']
    by (simp add: altAttrRegex_def star_def)
qed

declare altCaptures.simps [simp del]

definition alt_values :: "string \<Rightarrow> string list" where
  "alt_values attrs = map alt_value (altCaptures None attrs)"

lemma collectAlts_altCaptures:
  "collectAlts p s alts =
     alts @ filter (\<lambda>v. v \<noteq> [])
              (map alt_value (altCaptures p s))"
proof (induction p s alts rule: collectAlts.induct)
  case (1 p s alts)
  show ?case
  proof (cases "search False False altAttrRegex p s")
    case None
    then show ?thesis
      by (simp add: collectAlts.simps[of p s alts] altCaptures.simps[of p s])
  next
    case (Some h)
    obtain sk mt g p' s' where h: "h = Hit sk mt g p' s'" by (cases h)
    define v where "v = alt_value (grp g 1)"
    have ih: "collectAlts p' s' (if 0 < length v then alts @ [v] else alts) =
        (if 0 < length v then alts @ [v] else alts) @ filter (\<lambda>v. v \<noteq> [])
          (map alt_value (altCaptures p' s'))"
      unfolding v_def by (rule "1.IH"[OF Some h refl refl])
    have c: "collectAlts p s alts = collectAlts p' s' (if 0 < length v then alts @ [v] else alts)"
      by (simp add: collectAlts.simps[of p s alts] Some h Let_def v_def)
    have a: "altCaptures p s = grp g 1 # altCaptures p' s'"
      by (simp add: altCaptures.simps[of p s] Some h)
    show ?thesis
      unfolding c ih a by (cases "v = []") (simp_all add: v_def)
  qed
qed

lemma find_filter: "find P xs = (case filter P xs of [] \<Rightarrow> None | x # ys \<Rightarrow> Some x)"
  by (induction xs) auto

lemma alt_values_trimmed: "v \<in> set (alt_values attrs) \<Longrightarrow> trim v = v"
  by (auto simp: alt_values_def alt_value_def trim_trim)


section \<open>Matches that are given back\<close>

lemma replace_g_same:
  "(\<And>mt g. (mt, g) \<in> set (hits ic ml r p s) \<Longrightarrow> cb mt g st = (mt, st)) \<Longrightarrow>
   replace_g ic ml r cb p s st = (s, st)"
proof (induction ic ml r p s arbitrary: rule: hits.induct)
  case (1 ic ml r p s)
  show ?case
  proof (cases "search ic ml r p s")
    case None
    then show ?thesis by (subst replace_g.simps) simp
  next
    case (Some h)
    obtain sk mt g p' s' where h: "h = Hit sk mt g p' s'" by (cases h)
    have split: "s = sk @ mt @ s'" using search_split Some h by blast
    have hs: "hits ic ml r p s = (mt, g) #
          (if mt = [] then (case s' of [] \<Rightarrow> [] | x # xs \<Rightarrow> hits ic ml r (Some x) xs)
           else hits ic ml r p' s')"
      by (simp add: hits.simps[of ic ml r p s] Some h)
    then have cb: "cb mt g st = (mt, st)" using "1.prems" by simp
    show ?thesis
    proof (cases "mt = []")
      case True
      show ?thesis
      proof (cases s')
        case Nil
        with Some h cb True split show ?thesis
          by (subst replace_g.simps) simp
      next
        case (Cons x xs)
        have "replace_g ic ml r cb (Some x) xs st = (xs, st)"
          by (rule "1.IH"(1)[OF Some h True Cons]) (use "1.prems" hs True Cons in simp)
        with Some h cb True Cons split show ?thesis
          by (subst replace_g.simps) simp
      qed
    next
      case False
      have "replace_g ic ml r cb p' s' st = (s', st)"
        by (rule "1.IH"(2)[OF Some h False]) (use "1.prems" hs False in simp)
      with Some h cb False split show ?thesis
        by (subst replace_g.simps) simp
    qed
  qed
qed

lemma embeds_without_url:
  assumes b: "\<forall>(mt, g) \<in> set (hits True True blockRegex None t).
                attr_or_empty (parseEmbedAttrs (grp g 2)) ''url'' = []"
    and s: "\<forall>(mt, g) \<in> set (hits True True singleRegex None t).
                attr_or_empty (parseEmbedAttrs (grp g 2)) ''url'' = []"
  shows "processContent_embeds t = \<lparr>changed = False, text = t, blocks = 0, singles = 0\<rparr>"
proof -
  have 1: "replace_g True True blockRegex block_cb None t (False, 0) = (t, (False, 0))"
    by (rule replace_g_same) (use b in \<open>auto simp: block_cb_def Let_def\<close>)
  have 2: "replace_g True True singleRegex single_cb None t (False, 0) = (t, (False, 0))"
    by (rule replace_g_same) (use s in \<open>auto simp: single_cb_def Let_def\<close>)
  show ?thesis by (simp add: processContent_embeds_def 1 2)
qed

section \<open>Matching on texts of a known shape\<close>


text \<open>The character before the position reached after the text \<open>w\<close>.\<close>

definition lastp :: "char option \<Rightarrow> string \<Rightarrow> char option" where
  "lastp p w = (if w = [] then p else Some (last w))"

lemma lastp_simps [simp]:
  "lastp p [] = p"
  "lastp p (x # xs) = lastp (Some x) xs"
  by (simp_all add: lastp_def)

lemma lastp_append [simp]: "lastp p (u @ [x]) = Some x"
  by (simp add: lastp_def)

text \<open>A greedy star over a run of the class that ends the class: the longest run wins when
  what follows matches after it.\<close>

lemma star_greedy_max:
  assumes "\<forall>x \<in> set w. in_class ic cl x"
    and "s = [] \<or> \<not> in_class ic cl (hd s)"
    and "m ic ml k (lastp p w) s c = Some r"
  shows "m ic ml (R (Quant cl 0 None True) # k) p (w @ s) c = Some r"
  using assms
proof (induction w arbitrary: p)
  case Nil
  then show ?case by (cases s) auto
next
  case (Cons a w)
  then have "m ic ml (R (Quant cl 0 None True) # k) (Some a) (w @ s) c = Some r" by simp
  with Cons.prems show ?case by (simp add: dec_def)
qed

text \<open>A star, greedy or not, fails when what follows fails after every run it can take.\<close>

lemma star_none:
  assumes "\<And>u v. s = u @ v \<Longrightarrow> \<forall>x \<in> set u. in_class ic cl x \<Longrightarrow> m ic ml k (lastp p u) v c = None"
  shows "m ic ml (R (Quant cl 0 mx g) # k) p s c = None"
  using assms
proof (induction s arbitrary: p mx)
  case Nil
  from Nil(1)[of "[]" "[]"] show ?case by simp
next
  case (Cons a s)
  have here: "m ic ml k p (a # s) c = None" using Cons.prems[of "[]" "a # s"] by simp
  show ?case
  proof (cases "in_class ic cl a \<and> mx \<noteq> Some 0")
    case True
    have "m ic ml (R (Quant cl 0 (dec mx) g) # k) (Some a) s c = None"
    proof (rule Cons.IH)
      fix u v
      assume "s = u @ v" "\<forall>x \<in> set u. in_class ic cl x"
      with True Cons.prems[of "a # u" v] show "m ic ml k (lastp (Some a) u) v c = None" by simp
    qed
    with here True show ?thesis by (cases g) simp_all
  next
    case False
    with here show ?thesis by auto
  qed
qed

lemma search_hit_here:
  "match_at ic ml r p s = Some (p', s', g) \<Longrightarrow>
   search ic ml r p s = Some (Hit [] (take (length s - length s') s) g p' s')"
  by (cases s) auto


lemma is_space_simps [simp]:
  "\<not> is_space CHR ''{''" "\<not> is_space CHR ''<''" "\<not> is_space CHR ''h''" "\<not> is_space CHR ''e''"
  "\<not> is_space CHR ''%''" "is_space CHR '' ''"
  by (simp_all add: is_space_def)

lemma in_ws [simp]: "in_class ic ws x = is_space x"
  by (simp add: ws_def)

lemma in_notc [simp]: "in_class False (notc a) x = (x \<noteq> a)"
  by (simp add: notc_def)

lemma start_marker_match:
  assumes ind: "\<forall>x \<in> set indent. is_space x" and v: "CHR ''%'' \<notin> set v"
  shows "match_at False True startTag None (indent @ ''{% hint style=\"'' @ v @ ''\" %}'' @ rest)
     = Some (Some CHR ''}'', rest, (\<lambda>n. None)(1 \<mapsto> indent))"
proof -
  let ?line = "''{% hint style=\"'' @ v @ ''\" %}'' @ rest"
  let ?c = "(\<lambda>n. None)(1 \<mapsto> indent) :: caps"
  let ?w = "'' style=\"'' @ v @ ''\" ''"
  have 1: "m False True [R (Lit ''%}'')] (lastp (Some CHR ''t'') ?w) (''%}'' @ rest) ?c
      = Some (Some CHR ''}'', rest, ?c)"
    by simp
  have 2: "m False True [R (star (notc CHR ''%'')), R (Lit ''%}'')] (Some CHR ''t'') (?w @ ''%}'' @ rest) ?c
      = Some (Some CHR ''}'', rest, ?c)"
    unfolding star_def by (rule star_greedy_max[OF _ _ 1]) (use v in auto)
  let ?r2 = "seqs [Lit ''hint'', WordB, star (notc CHR ''%''), Lit ''%}'']"
  let ?r1 = "seqs [Lit ''{%'', star ws, Lit ''hint'', WordB, star (notc CHR ''%''), Lit ''%}'']"
  have 3: "m False True [R ?r2]
      (lastp (Some CHR ''%'') '' '') (''hint style=\"'' @ v @ ''\" %}'' @ rest) ?c
      = Some (Some CHR ''}'', rest, ?c)"
    using 2 by (simp add: word_before_def word_after_def is_word_def)
  have 4: "m False True [R (star ws), R ?r2]
      (Some CHR ''%'') ('' '' @ ''hint style=\"'' @ v @ ''\" %}'' @ rest) ?c
      = Some (Some CHR ''}'', rest, ?c)"
    unfolding star_def by (rule star_greedy_max[OF _ _ 3[unfolded star_def]]) auto
  have 5: "m False True [EndG 1 (indent @ ?line), R ?r1]
      (lastp None indent) ?line (\<lambda>n. None)
      = Some (Some CHR ''}'', rest, ?c)"
    using 4 by simp
  have 6: "m False True [R (star ws), EndG 1 (indent @ ?line), R ?r1]
      None (indent @ ?line) (\<lambda>n. None)
      = Some (Some CHR ''}'', rest, ?c)"
    unfolding star_def by (rule star_greedy_max[OF _ _ 5[unfolded star_def]]) (use ind in auto)
  then show ?thesis
    by (simp add: match_at_def startTag_def at_bol_def)
qed


lemma replace_g_none:
  "search ic ml r p s = None \<Longrightarrow> replace_g ic ml r cb p s st = (s, st)"
  by (subst replace_g.simps) simp

lemma replace_g_hit_here:
  assumes "match_at ic ml r p s = Some (p', s', g)" and "length s' < length s"
  shows "replace_g ic ml r cb p s st =
     (case cb (take (length s - length s') s) g st of (rep, st1) \<Rightarrow>
        (case replace_g ic ml r cb p' s' st1 of (out, st2) \<Rightarrow> (rep @ out, st2)))"
proof -
  from assms(2) have "take (length s - length s') s \<noteq> []" by (cases s) auto
  with search_hit_here[OF assms(1)] show ?thesis
    by (subst replace_g.simps) (simp split: prod.splits)
qed

lemma replace_g_skip:
  assumes "match_at ic ml r p (x # s) = None"
  shows "replace_g ic ml r cb p (x # s) st =
     (case replace_g ic ml r cb (Some x) s st of (out, st') \<Rightarrow> (x # out, st'))"
proof (cases "search ic ml r (Some x) s")
  case None
  with assms have "search ic ml r p (x # s) = None" by simp
  with None show ?thesis by (simp add: replace_g_none)
next
  case (Some h)
  obtain sk mt g p' s' where h: "h = Hit sk mt g p' s'" by (cases h)
  with Some assms have 1: "search ic ml r p (x # s) = Some (Hit (x # sk) mt g p' s')" by simp
  have l: "replace_g ic ml r cb p (x # s) st =
     (case cb mt g st of (rep, st1) \<Rightarrow>
        if mt = [] then
          (case s' of
             [] \<Rightarrow> ((x # sk) @ rep, st1)
           | y # ys \<Rightarrow>
               (case replace_g ic ml r cb (Some y) ys st1 of (out, st2) \<Rightarrow> ((x # sk) @ rep @ y # out, st2)))
        else
          (case replace_g ic ml r cb p' s' st1 of (out, st2) \<Rightarrow> ((x # sk) @ rep @ out, st2)))"
    unfolding replace_g.simps[of ic ml r cb p "x # s" st] 1 by simp
  have r: "replace_g ic ml r cb (Some x) s st =
     (case cb mt g st of (rep, st1) \<Rightarrow>
        if mt = [] then
          (case s' of
             [] \<Rightarrow> (sk @ rep, st1)
           | y # ys \<Rightarrow>
               (case replace_g ic ml r cb (Some y) ys st1 of (out, st2) \<Rightarrow> (sk @ rep @ y # out, st2)))
        else
          (case replace_g ic ml r cb p' s' st1 of (out, st2) \<Rightarrow> (sk @ rep @ out, st2)))"
    unfolding replace_g.simps[of ic ml r cb "Some x" s st] Some h by simp
  show ?thesis
    unfolding l r by (simp split: prod.splits list.splits)
qed

text \<open>
  After leading white space, a character that is neither white space nor the first of the
  literal: the pattern \<^verbatim>\<open>(\s*)\<close> followed by the literal fails.
\<close>

lemma split_before:
  assumes "u @ v = w @ x # s" and "\<forall>c \<in> set u. P c" and "\<not> P x"
  shows "\<exists>w2. w = u @ w2 \<and> v = w2 @ x # s"
  using assms
proof (induction u arbitrary: w)
  case Nil
  then show ?case by simp
next
  case (Cons a u)
  then show ?case by (cases w) auto
qed

definition lit_eq :: "bool \<Rightarrow> char \<Rightarrow> char \<Rightarrow> bool" where
  "lit_eq ic x a = (if ic then canon x = canon a else x = a)"

lemma indent_lit_none:
  assumes w: "\<forall>c \<in> set w. is_space c" and x: "\<not> is_space x" "\<not> lit_eq ic x a"
    and a: "\<And>y. is_space y \<Longrightarrow> \<not> lit_eq ic y a"
  shows "m ic ml (R (Quant ws 0 None g) # EndG n s0 # R (Seq (Lit (a # l)) r') # k) p (w @ x # s) c = None"
proof (rule star_none)
  fix u v
  assume "w @ x # s = u @ v" "\<forall>c \<in> set u. in_class ic ws c"
  then obtain w2 where "w = u @ w2" "v = w2 @ x # s"
    using split_before[of u v w x s is_space] x by auto
  then obtain y ys where v: "v = y # ys" "y \<in> set w \<or> y = x"
    by (cases w2) auto
  with w x a have "\<not> lit_eq ic y a" by auto
  with v show "m ic ml (EndG n s0 # R (Seq (Lit (a # l)) r') # k) (lastp p u) v c = None"
    by (simp add: lit_eq_def)
qed

lemma space_not_brace: "is_space y \<Longrightarrow> \<not> lit_eq ic y CHR ''{''"
  by (auto simp: is_space_def lit_eq_def canon_def)

lemma hint_tags_none_at_lt:
  assumes "\<forall>c \<in> set w. is_space c"
  shows "match_at False True startTag p (w @ CHR ''<'' # s) = None"
    and "match_at False True endTag p (w @ CHR ''<'' # s) = None"
  using indent_lit_none[OF assms, of "CHR ''<''" False "CHR ''{''", OF _ _ space_not_brace]
  by (simp_all add: match_at_def startTag_def endTag_def star_def lit_eq_def)

lemma not_bol: "\<not> is_lt x \<Longrightarrow> m ic ml (R (Seq Bol r) # k) (Some x) s c = None"
  by (simp add: at_bol_def)

lemma hint_tags_skip_note:
  assumes "\<forall>c \<in> set w. is_space c" and r: "r = startTag \<or> r = endTag"
  shows "replace_g False True r cb p (w @ ''<Note>'' @ s) st =
     (case replace_g False True r cb (Some CHR ''>'') s st of (out, st') \<Rightarrow> (w @ ''<Note>'' @ out, st'))"
  using assms(1)
proof (induction w arbitrary: p)
  case Nil
  have 0: "match_at False True r p (''<Note>'' @ s) = None"
    using hint_tags_none_at_lt[of "[]" p] r by auto
  have n: "\<And>x t. \<not> is_lt x \<Longrightarrow> match_at False True r (Some x) t = None"
    using r by (auto simp: match_at_def startTag_def endTag_def at_bol_def)
  show ?case
    using 0 by (simp add: replace_g_skip n is_lt_def split: prod.splits)
next
  case (Cons a w)
  then have "match_at False True r p ((a # w) @ CHR ''<'' # ''Note>'' @ s) = None"
    using hint_tags_none_at_lt[of "a # w" p] r by auto
  then have "replace_g False True r cb p (a # w @ ''<Note>'' @ s) st =
     (case replace_g False True r cb (Some a) (w @ ''<Note>'' @ s) st of (out, st') \<Rightarrow> (a # out, st'))"
    using replace_g_skip[of False True r p a "w @ ''<Note>'' @ s" cb st] by simp
  with Cons show ?case by (simp split: prod.splits)
qed


lemma end_marker_match:
  assumes ind: "\<forall>x \<in> set indent. is_space x"
  shows "match_at False True endTag None (indent @ ''{% endhint %}'' @ rest)
     = Some (Some CHR ''}'', rest, (\<lambda>n. None)(1 \<mapsto> indent))"
proof -
  let ?line = "''{% endhint %}'' @ rest"
  let ?c = "(\<lambda>n. None)(1 \<mapsto> indent) :: caps"
  let ?r1 = "seqs [Lit ''{%'', star ws, Lit ''endhint'', star ws, Lit ''%}'']"
  have 1: "m False True [R (Lit ''%}'')] (lastp (Some CHR ''t'') '' '') (''%}'' @ rest) ?c
      = Some (Some CHR ''}'', rest, ?c)"
    by simp
  have 2: "m False True [R (star ws), R (Lit ''%}'')] (Some CHR ''t'') ('' '' @ ''%}'' @ rest) ?c
      = Some (Some CHR ''}'', rest, ?c)"
    unfolding star_def by (rule star_greedy_max[OF _ _ 1]) auto
  have 3: "m False True [R (seqs [Lit ''endhint'', star ws, Lit ''%}''])]
      (lastp (Some CHR ''%'') '' '') (''endhint %}'' @ rest) ?c
      = Some (Some CHR ''}'', rest, ?c)"
    using 2 by simp
  have 4: "m False True [R (star ws), R (seqs [Lit ''endhint'', star ws, Lit ''%}''])]
      (Some CHR ''%'') ('' '' @ ''endhint %}'' @ rest) ?c
      = Some (Some CHR ''}'', rest, ?c)"
    unfolding star_def by (rule star_greedy_max[OF _ _ 3[unfolded star_def]]) auto
  have 5: "m False True [EndG 1 (indent @ ?line), R ?r1] (lastp None indent) ?line (\<lambda>n. None)
      = Some (Some CHR ''}'', rest, ?c)"
    using 4 by simp
  have 6: "m False True [R (star ws), EndG 1 (indent @ ?line), R ?r1] None (indent @ ?line) (\<lambda>n. None)
      = Some (Some CHR ''}'', rest, ?c)"
    unfolding star_def by (rule star_greedy_max[OF _ _ 5[unfolded star_def]]) (use ind in auto)
  then show ?thesis
    by (simp add: match_at_def endTag_def at_bol_def)
qed

text \<open>The start pattern finds nothing in an end marker and the white space before it.\<close>

lemma start_none_at_end_marker:
  assumes "\<forall>c \<in> set w. is_space c"
  shows "match_at False True startTag p (w @ ''{% endhint %}'' @ s) = None"
proof -
  let ?r1 = "seqs [Lit ''{%'', star ws, Lit ''hint'', WordB, star (notc CHR ''%''), Lit ''%}'']"
  have "m False True (R (Quant ws 0 None True) # [EndG 1 s0, R ?r1]) p (w @ CHR ''{'' # ''% endhint %}'' @ s) c = None"
    for s0 c
  proof (rule star_none)
    fix u v
    assume "w @ CHR ''{'' # ''% endhint %}'' @ s = u @ v" "\<forall>x \<in> set u. in_class False ws x"
    then obtain w2 where w2: "w = u @ w2" "v = w2 @ CHR ''{'' # ''% endhint %}'' @ s"
      using split_before[of u v w "CHR ''{''" "''% endhint %}'' @ s" is_space] by auto
    show "m False True [EndG 1 s0, R ?r1] (lastp p u) v c = None"
    proof (cases w2)
      case Nil
      with w2 show ?thesis by (simp add: star_def dec_def)
    next
      case (Cons y ys)
      with w2 assms have "is_space y" by auto
      then have "y \<noteq> CHR ''{''" by auto
      with Cons w2 show ?thesis by simp
    qed
  qed
  then show ?thesis
    by (simp add: match_at_def startTag_def star_def)
qed

lemma start_skip_end_marker:
  assumes "\<forall>c \<in> set w. is_space c"
  shows "replace_g False True startTag cb p (w @ ''{% endhint %}'' @ s) st =
     (case replace_g False True startTag cb (Some CHR ''}'') s st of
        (out, st') \<Rightarrow> (w @ ''{% endhint %}'' @ out, st'))"
  using assms
proof (induction w arbitrary: p)
  case Nil
  have 0: "match_at False True startTag p (''{% endhint %}'' @ s) = None"
    using start_none_at_end_marker[of "[]" p] by auto
  have n: "\<And>x t. \<not> is_lt x \<Longrightarrow> match_at False True startTag (Some x) t = None"
    by (auto simp: match_at_def startTag_def at_bol_def)
  show ?case
    using 0 by (simp add: replace_g_skip n is_lt_def split: prod.splits)
next
  case (Cons a w)
  then have "match_at False True startTag p ((a # w) @ ''{% endhint %}'' @ s) = None"
    using start_none_at_end_marker[of "a # w" p] by auto
  then have "replace_g False True startTag cb p (a # w @ ''{% endhint %}'' @ s) st =
     (case replace_g False True startTag cb (Some a) (w @ ''{% endhint %}'' @ s) st of
        (out, st') \<Rightarrow> (a # out, st'))"
    using replace_g_skip[of False True startTag p a "w @ ''{% endhint %}'' @ s" cb st] by simp
  with Cons show ?case by (simp split: prod.splits)
qed

lemma replace_g_flag_kept:
  assumes "\<And>mt g st. fst st \<Longrightarrow> fst (snd (cb mt g st))"
    and "\<And>mt g st. \<not> fst (snd (cb mt g st)) \<Longrightarrow> fst (cb mt g st) = mt"
    and "fst st"
  shows "fst (snd (replace_g ic ml r cb p s st))"
  using replace_g_unflagged[of fst cb ic ml r p s st] assms by blast

lemma end_of_text_none:
  "match_at False True startTag (Some CHR ''}'') [] = None"
  "match_at False True endTag (Some CHR ''}'') [] = None"
  "match_at False True startTag (Some CHR ''>'') [] = None"
  "match_at False True endTag (Some CHR ''>'') [] = None"
  by (simp_all add: match_at_def startTag_def endTag_def at_bol_def is_lt_def)


lemma hint_start_line:
  assumes ind: "\<forall>c \<in> set indent. is_space c" and v: "CHR ''%'' \<notin> set v"
  shows "\<exists>out1 n1 out2 n2.
     replace_g False True startTag start_cb (Some CHR ''}'') rest (True, 1) = (out1, (True, n1)) \<and>
     replace_g False True endTag end_cb (Some CHR ''>'') out1 (True, 0) = (out2, (True, n2)) \<and>
     processContent_hints (indent @ ''{% hint style=\"'' @ v @ ''\" %}'' @ rest)
       = \<lparr>changed = True, text = indent @ ''<Note>'' @ out2, startCount = n1, endCount = n2\<rparr>"
proof -
  let ?t = "indent @ ''{% hint style=\"'' @ v @ ''\" %}'' @ rest"
  obtain out1 c1 n1 where r1:
    "replace_g False True startTag start_cb (Some CHR ''}'') rest (True, 1) = (out1, (c1, n1))"
    using prod.exhaust by metis
  have "fst (snd (replace_g False True startTag start_cb (Some CHR ''}'') rest (True, 1)))"
    using replace_g_flag_kept[where cb=start_cb and st="(True, 1)", OF start_cb_flag] by simp
  with r1 have c1: "c1" by simp
  obtain out2 c2 n2 where r2:
    "replace_g False True endTag end_cb (Some CHR ''>'') out1 (True, 0) = (out2, (c2, n2))"
    using prod.exhaust by metis
  have "fst (snd (replace_g False True endTag end_cb (Some CHR ''>'') out1 (True, 0)))"
    using replace_g_flag_kept[where cb=end_cb and st="(True, 0)", OF end_cb_flag] by simp
  with r2 have c2: "c2" by simp
  have "length rest < length ?t" by simp
  from replace_g_hit_here[OF start_marker_match[OF ind v, of rest] this, of start_cb "(False, 0)"]
  have p1: "replace_g False True startTag start_cb None ?t (False, 0)
      = (indent @ ''<Note>'' @ out1, (True, n1))"
    using r1 c1 by (simp add: start_cb_def tmpl_def)
  have p2: "replace_g False True endTag end_cb None (indent @ ''<Note>'' @ out1) (True, 0)
      = (indent @ ''<Note>'' @ out2, (True, n2))"
    using hint_tags_skip_note[OF ind, of endTag end_cb None out1 "(True, 0)"] r2 c2 by simp
  have "processContent_hints ?t
      = \<lparr>changed = True, text = indent @ ''<Note>'' @ out2, startCount = n1, endCount = n2\<rparr>"
    unfolding processContent_hints_def p1 prod.case p2 by simp
  moreover from r1 c1 have
    "replace_g False True startTag start_cb (Some CHR ''}'') rest (True, 1) = (out1, (True, n1))"
    by simp
  moreover from r2 c2 have
    "replace_g False True endTag end_cb (Some CHR ''>'') out1 (True, 0) = (out2, (True, n2))"
    by simp
  ultimately show ?thesis by blast
qed

lemma hint_end_line:
  assumes ind: "\<forall>c \<in> set indent. is_space c"
  shows "\<exists>out1 c1 n1 out2 n2.
     replace_g False True startTag start_cb (Some CHR ''}'') rest (False, 0) = (out1, (c1, n1)) \<and>
     replace_g False True endTag end_cb (Some CHR ''}'') out1 (True, 1) = (out2, (True, n2)) \<and>
     processContent_hints (indent @ ''{% endhint %}'' @ rest)
       = \<lparr>changed = True, text = indent @ ''</Note>'' @ out2, startCount = n1, endCount = n2\<rparr>"
proof -
  let ?t = "indent @ ''{% endhint %}'' @ rest"
  obtain out1 c1 n1 where r1:
    "replace_g False True startTag start_cb (Some CHR ''}'') rest (False, 0) = (out1, (c1, n1))"
    using prod.exhaust by metis
  obtain out2 c2 n2 where r2:
    "replace_g False True endTag end_cb (Some CHR ''}'') out1 (True, 1) = (out2, (c2, n2))"
    using prod.exhaust by metis
  have "fst (snd (replace_g False True endTag end_cb (Some CHR ''}'') out1 (True, 1)))"
    using replace_g_flag_kept[where cb=end_cb and st="(True, 1)", OF end_cb_flag] by simp
  with r2 have c2: "c2" by simp
  have p1: "replace_g False True startTag start_cb None ?t (False, 0)
      = (indent @ ''{% endhint %}'' @ out1, (c1, n1))"
    using start_skip_end_marker[OF ind, of start_cb None rest "(False, 0)"] r1 by simp
  have "length out1 < length (indent @ ''{% endhint %}'' @ out1)" by simp
  from replace_g_hit_here[OF end_marker_match[OF ind, of out1] this, of end_cb "(c1, 0)"]
  have p2: "replace_g False True endTag end_cb None (indent @ ''{% endhint %}'' @ out1) (c1, 0)
      = (indent @ ''</Note>'' @ out2, (True, n2))"
    using r2 c2 by (simp add: end_cb_def tmpl_def)
  have "processContent_hints ?t
      = \<lparr>changed = True, text = indent @ ''</Note>'' @ out2, startCount = n1, endCount = n2\<rparr>"
    unfolding processContent_hints_def p1 prod.case p2 by simp
  moreover from r2 c2 have
    "replace_g False True endTag end_cb (Some CHR ''}'') out1 (True, 1) = (out2, (True, n2))"
    by simp
  ultimately show ?thesis using r1 by blast
qed













section \<open>A second run on a text of one line\<close>




















section \<open>A second run of the arcade transformer on a text of one line\<close>








section \<open>A second run of the embed transformer on a text of one line\<close>




















section \<open>Texts of several lines\<close>









section \<open>Matching step by step\<close>

text \<open>A literal is read off the front of the input; a greedy star that is followed by
  something that cannot start inside the run of the class takes the whole run.\<close>

fun starts_lit :: "bool \<Rightarrow> string \<Rightarrow> string \<Rightarrow> bool" where
  "starts_lit ic s [] = True"
| "starts_lit ic [] (a # l) = False"
| "starts_lit ic (x # s) (a # l) = (lit_eq ic x a \<and> starts_lit ic s l)"


lemma starts_lit_append:
  "starts_lit ic (l @ s) l' = (if length l' \<le> length l then starts_lit ic l l'
     else starts_lit ic l (take (length l) l') \<and> starts_lit ic s (drop (length l) l'))"
proof (induction ic l l' rule: starts_lit.induct)
  case (1 ic s)
  then show ?case by simp
next
  case (2 ic a l)
  then show ?case by simp
next
  case (3 ic x s a l)
  then show ?case by simp
qed






section \<open>The lines of a text and the hint markers\<close>

text \<open>
  What a line is for a marker pattern, read from its first character that is not white
  space: a marker, with the text that follows it on the line; a marker that is opened on
  the line and not finished on it; or a line that is neither.
\<close>

datatype line_kind = Marker string | Unfinished | Plain

definition after_brace :: "string \<Rightarrow> string option" where
  "after_brace b = (if take 2 b = ''{%'' then Some (dropWhile is_space (drop 2 b)) else None)"

definition start_kind :: "string \<Rightarrow> line_kind" where
  "start_kind b =
     (case after_brace b of
        None \<Rightarrow> Plain
      | Some c \<Rightarrow>
          if c = [] then Unfinished
          else if take 4 c = ''hint'' \<and> (drop 4 c = [] \<or> \<not> is_word (hd (drop 4 c))) then
            (case dropWhile (\<lambda>x. x \<noteq> CHR ''%'') (drop 4 c) of
               [] \<Rightarrow> Unfinished
             | x # r \<Rightarrow> (case r of [] \<Rightarrow> Plain | y # tx \<Rightarrow> if y = CHR ''}'' then Marker tx else Plain))
          else Plain)"

definition end_kind :: "string \<Rightarrow> line_kind" where
  "end_kind b =
     (case after_brace b of
        None \<Rightarrow> Plain
      | Some c \<Rightarrow>
          if c = [] then Unfinished
          else if take 7 c = ''endhint'' then
            (case dropWhile is_space (drop 7 c) of
               [] \<Rightarrow> Unfinished
             | x # r \<Rightarrow> (case r of [] \<Rightarrow> Plain
                         | y # tx \<Rightarrow> if x = CHR ''%'' \<and> y = CHR ''}'' then Marker tx else Plain))
          else Plain)"












section \<open>A pass over the lines of a text\<close>

text \<open>
  A text as its lines: each with its text from the first character that is not white space
  up to the line terminator, and the white space from there to the next such character.
\<close>

definition render :: "(string \<times> string) list \<Rightarrow> string" where
  "render D = concat (map (\<lambda>(b, S). b @ S) D)"




lemma render_simps [simp]:
  "render [] = []"
  "render ((b, S) # D) = b @ S @ render D"
  by (simp_all add: render_def)













section \<open>The hint transformer on a text of several lines\<close>





lemma note_kinds [simp]:
  "start_kind (CHR ''<'' # s) = Plain" "end_kind (CHR ''<'' # s) = Plain"
  by (simp_all add: start_kind_def end_kind_def after_brace_def)














section \<open>Second runs on the examples of the specification\<close>

text \<open>
  The embed block on three lines, a hint block, the arcade iframe and the figure: the second
  run changes nothing.
\<close>

lemma second_run_on_examples:
  \<open>processContent_embeds ''{% embed url="https://x.com/a" %}\<newline>Caption text\<newline>{% endembed %}''
     = \<lparr>changed = True,
         text = ''<iframe className="w-full aspect-video rounded-xl" src="https://x.com/a" title="Caption text" frameBorder="0" allow="accelerometer; autoplay; clipboard-write; encrypted-media; gyroscope; picture-in-picture" allowFullScreen></iframe>'',
         blocks = 1, singles = 0\<rparr> \<and>
   processContent_embeds
       ''<iframe className="w-full aspect-video rounded-xl" src="https://x.com/a" title="Caption text" frameBorder="0" allow="accelerometer; autoplay; clipboard-write; encrypted-media; gyroscope; picture-in-picture" allowFullScreen></iframe>''
     = \<lparr>changed = False,
         text = ''<iframe className="w-full aspect-video rounded-xl" src="https://x.com/a" title="Caption text" frameBorder="0" allow="accelerometer; autoplay; clipboard-write; encrypted-media; gyroscope; picture-in-picture" allowFullScreen></iframe>'',
         blocks = 0, singles = 0\<rparr> \<and>
   processContent_hints ''{% hint style="warning" %}\<newline>Take care.\<newline>{% endhint %}''
     = \<lparr>changed = True, text = ''<Note>\<newline>Take care.\<newline></Note>'', startCount = 1, endCount = 1\<rparr> \<and>
   processContent_hints ''<Note>\<newline>Take care.\<newline></Note>''
     = \<lparr>changed = False, text = ''<Note>\<newline>Take care.\<newline></Note>'', startCount = 0, endCount = 0\<rparr> \<and>
   processContent_arcade ''<iframe src="https://app.arcade.software/share/abc" ...></iframe>''
     = \<lparr>changed = True, text = ''https://app.arcade.software/share/abc'', replaced = 1\<rparr> \<and>
   processContent_arcade ''https://app.arcade.software/share/abc''
     = \<lparr>changed = False, text = ''https://app.arcade.software/share/abc'', replaced = 0\<rparr>\<close>
  by code_simp


section \<open>Further facts about the transformers\<close>

text \<open>
  For every tag and every fallback alt, the alt that \<^verbatim>\<open>normalizeImgTag\<close> writes (escaped) is
  chosen so, among the values its alt pattern finds in the attribute text: the first non-empty trimmed alt value in order of
  appearance; when there is none, the trimmed fallback (empty when no fallback is
  supplied); when there is one and the trimmed fallback is not empty and is not contained
  in it, case-insensitively, the two joined by a space. The fallback the script passes is
  always trimmed already.
\<close>

lemma normalizeImgTag_chosen_alt:
  \<open>normalizeImgTag imgTag fallbackAlt =
     ''<img''
     @ (if cleanAttrs (attrStringOriginal imgTag) \<noteq> [] then '' '' @ cleanAttrs (attrStringOriginal imgTag) else [])
     @ '' alt="''
     @ htmlEntityEscape
         (case find (\<lambda>v. v \<noteq> []) (alt_values (attrStringOriginal imgTag)) of
            None \<Rightarrow> trim fallbackAlt
          | Some a \<Rightarrow>
              if trim fallbackAlt = [] \<or> includes_str (toLowerCase a) (toLowerCase (trim fallbackAlt))
              then a
              else a @ '' '' @ trim fallbackAlt)
     @ ''" />''\<close>
proof -
  let ?alts = "collectAlts None (attrStringOriginal imgTag) []"
  let ?vals = "alt_values (attrStringOriginal imgTag)"
  let ?fb = "trim fallbackAlt"
  have alts: "?alts = filter (\<lambda>v. v \<noteq> []) ?vals"
    by (simp add: collectAlts_altCaptures alt_values_def)
  have fb: "(fallbackAlt \<noteq> [] \<and> 0 < length ?fb) = (?fb \<noteq> [])"
    by (auto simp: trim_def trimEnd_def trimStart_def)
  have "chooseAlt ?alts fallbackAlt =
      (case find (\<lambda>v. v \<noteq> []) ?vals of
         None \<Rightarrow> ?fb
       | Some a \<Rightarrow>
           if ?fb = [] \<or> includes_str (toLowerCase a) (toLowerCase ?fb) then a
           else a @ '' '' @ ?fb)"
  proof (cases "filter (\<lambda>v. v \<noteq> []) ?vals")
    case Nil
    then show ?thesis
      by (simp add: chooseAlt_def alts find_filter fb Let_def)
  next
    case (Cons a rest)
    then have "a \<in> set (filter (\<lambda>v. v \<noteq> []) ?vals)" by simp
    then have a: "a \<noteq> []" "trim a = a" using alt_values_trimmed by auto
    have j: "?fb \<noteq> [] \<Longrightarrow> trim (a @ '' '' @ ?fb) = a @ '' '' @ ?fb"
      using trim_join[OF a] trim_trim by simp
    from Cons a j show ?thesis
      by (simp add: chooseAlt_def alts find_filter fb Let_def)
  qed
  then show ?thesis
    by (simp add: normalizeImgTag_def Let_def)
qed


text \<open>
  An embed directive, a match of the block or of the single pattern, whose attributes
  carry no url (or an empty one) is given back as it was matched and leaves the flag and
  the counter as they were; and a text in which no match of either pattern carries a url
  comes back byte for byte, with no change flagged and nothing counted.
\<close>

lemma embed_without_url_unchanged:
  "(attr_or_empty (parseEmbedAttrs (grp g 2)) ''url'' = [] \<longrightarrow>
      block_cb full g st = (full, st) \<and> single_cb full g st = (full, st)) \<and>
   ((\<forall>(mt, g) \<in> set (hits True True blockRegex None t).
        attr_or_empty (parseEmbedAttrs (grp g 2)) ''url'' = []) \<and>
    (\<forall>(mt, g) \<in> set (hits True True singleRegex None t).
        attr_or_empty (parseEmbedAttrs (grp g 2)) ''url'' = []) \<longrightarrow>
      processContent_embeds t = \<lparr>changed = False, text = t, blocks = 0, singles = 0\<rparr>)"
  using embeds_without_url[of t] by (simp add: block_cb_def single_cb_def Let_def)


lemma embed_without_url_unchanged_witness:
  \<open>attr_or_empty (parseEmbedAttrs (grp ((\<lambda>n. None)(2 \<mapsto> '' caption="x" '')) 2)) ''url'' = [] \<and>
   block_cb ''{% embed caption="x" %}'' ((\<lambda>n. None)(2 \<mapsto> '' caption="x" '')) (True, 3)
     = (''{% embed caption="x" %}'', (True, 3)) \<and>
   single_cb ''{% embed caption="x" %}'' ((\<lambda>n. None)(2 \<mapsto> '' caption="x" '')) (True, 3)
     = (''{% embed caption="x" %}'', (True, 3)) \<and>
   map fst (hits True True blockRegex None ''{% embed caption="x" %}\<newline>body\<newline>{% endembed %}'')
     = [''{% embed caption="x" %}\<newline>body\<newline>{% endembed %}''] \<and>
   list_all (\<lambda>(mt, g). attr_or_empty (parseEmbedAttrs (grp g 2)) ''url'' = [])
     (hits True True blockRegex None ''{% embed caption="x" %}\<newline>body\<newline>{% endembed %}'') \<and>
   list_all (\<lambda>(mt, g). attr_or_empty (parseEmbedAttrs (grp g 2)) ''url'' = [])
     (hits True True singleRegex None ''{% embed caption="x" %}\<newline>body\<newline>{% endembed %}'') \<and>
   processContent_embeds ''{% embed caption="x" %}\<newline>body\<newline>{% endembed %}''
     = \<lparr>changed = False, text = ''{% embed caption="x" %}\<newline>body\<newline>{% endembed %}'',
         blocks = 0, singles = 0\<rparr> \<and>
   list_all (\<lambda>(mt, g). attr_or_empty (parseEmbedAttrs (grp g 2)) ''url'' = [])
     (hits True True blockRegex None ''{% embed caption="x" %}body{% endembed %}'') \<and>
   list_all (\<lambda>(mt, g). attr_or_empty (parseEmbedAttrs (grp g 2)) ''url'' = [])
     (hits True True singleRegex None ''{% embed caption="x" %}body{% endembed %}'') \<and>
   processContent_embeds ''{% embed caption="x" %}body{% endembed %}''
     = \<lparr>changed = False, text = ''{% embed caption="x" %}body{% endembed %}'',
         blocks = 0, singles = 0\<rparr>\<close>
proof -
  let ?g = \<open>(\<lambda>n. None)(2 \<mapsto> '' caption="x" '') :: caps\<close>
  let ?T = \<open>''{% embed caption="x" %}\<newline>body\<newline>{% endembed %}''\<close>
  let ?U = \<open>''{% embed caption="x" %}body{% endembed %}''\<close>
  let ?P = "\<lambda>(mt :: string, g). attr_or_empty (parseEmbedAttrs (grp g 2)) ''url'' = []"
  have u: "attr_or_empty (parseEmbedAttrs (grp ?g 2)) ''url'' = []" by code_simp
  have n: "map fst (hits True True blockRegex None ?T) = [?T]" by code_simp
  have lb: "list_all ?P (hits True True blockRegex None ?T)" by code_simp
  then have b: "\<forall>x \<in> set (hits True True blockRegex None ?T). ?P x" by (simp only: list_all_iff)
  have ls: "list_all ?P (hits True True singleRegex None ?T)" by code_simp
  then have s: "\<forall>x \<in> set (hits True True singleRegex None ?T). ?P x" by (simp only: list_all_iff)
  have lb': "list_all ?P (hits True True blockRegex None ?U)" by code_simp
  then have b': "\<forall>x \<in> set (hits True True blockRegex None ?U). ?P x" by (simp only: list_all_iff)
  have ls': "list_all ?P (hits True True singleRegex None ?U)" by code_simp
  then have s': "\<forall>x \<in> set (hits True True singleRegex None ?U). ?P x" by (simp only: list_all_iff)
  from embed_without_url_unchanged[of ?g \<open>''{% embed caption="x" %}''\<close> "(True, 3)" ?T] u b s
  have 1: "block_cb ''{% embed caption=\"x\" %}'' ?g (True, 3) = (''{% embed caption=\"x\" %}'', (True, 3))"
    "single_cb ''{% embed caption=\"x\" %}'' ?g (True, 3) = (''{% embed caption=\"x\" %}'', (True, 3))"
    "processContent_embeds ?T = \<lparr>changed = False, text = ?T, blocks = 0, singles = 0\<rparr>"
    by blast+
  from embed_without_url_unchanged[of ?g \<open>''{% embed caption="x" %}''\<close> "(True, 3)" ?U] b' s'
  have 2: "processContent_embeds ?U = \<lparr>changed = False, text = ?U, blocks = 0, singles = 0\<rparr>"
    by blast
  show ?thesis using u n lb ls lb' ls' 1 2 by blast
qed


text \<open>
  One call of the escape functions, of \<^verbatim>\<open>buildIframe\<close> and of \<^verbatim>\<open>normalizeImgTag\<close>: the URL, the title and the alt are written escaped
  exactly once: every \<^verbatim>\<open>&\<close>, double quote, \<^verbatim>\<open><\<close> and \<^verbatim>\<open>>\<close> of the value becomes its entity, nothing
  else changes (the \<^verbatim>\<open>&\<close> of an entity just written is not escaped again), and the escaped
  value has no double quote, \<^verbatim>\<open><\<close> or \<^verbatim>\<open>>\<close> left.
\<close>

lemma escaped_once:
  \<open>htmlEscapeAttribute v = concat (map escape_char v) \<and>
   htmlEntityEscape v = concat (map escape_char v) \<and>
   CHR 0x22 \<notin> set (htmlEscapeAttribute v) \<and> CHR ''<'' \<notin> set (htmlEscapeAttribute v) \<and>
   CHR ''>'' \<notin> set (htmlEscapeAttribute v) \<and>
   buildIframe url title indent =
     indent @ ''<iframe className="w-full aspect-video rounded-xl" src="''
     @ concat (map escape_char (trim url))
     @ ''" title="''
     @ concat (map escape_char (if title \<noteq> [] then title else ''Embedded content''))
     @ ''" frameBorder="0" allow="accelerometer; autoplay; clipboard-write; encrypted-media; gyroscope; picture-in-picture" allowFullScreen></iframe>'' \<and>
   normalizeImgTag imgTag fallbackAlt =
     ''<img''
     @ (if cleanAttrs (attrStringOriginal imgTag) \<noteq> [] then '' '' @ cleanAttrs (attrStringOriginal imgTag) else [])
     @ '' alt="''
     @ concat (map escape_char (chooseAlt (collectAlts None (attrStringOriginal imgTag) []) fallbackAlt))
     @ ''" />''\<close>
  using escape_chars_kept[of v]
  by (simp add: htmlEscapeAttribute_def htmlEntityEscape_def four_replaceAll buildIframe_def
      normalizeImgTag_def Let_def)

text \<open>
  On a second pass image normalization reads back the alt it wrote
  and escapes the \<^verbatim>\<open>&\<close> of its entity again.
\<close>

lemma alt_escaped_twice:
  \<open>processFileContent ''<img src="a.png" alt="Q&A">''
     = \<lparr>changed = True, content = ''<img src="a.png" alt="Q&amp;A" />'',
         figureUnwrapped = 0, imgsNormalized = 1\<rparr> \<and>
   processFileContent ''<img src="a.png" alt="Q&amp;A" />''
     = \<lparr>changed = True, content = ''<img src="a.png" alt="Q&amp;amp;A" />'',
         figureUnwrapped = 0, imgsNormalized = 1\<rparr>\<close>
  by code_simp


text \<open>
  For all leading white space and every style value without a
  percent sign: the text that is the line of a start marker becomes the indentation and
  \<^verbatim>\<open><Note>\<close>, counted once; the text that is the line of an end marker becomes the
  indentation and \<^verbatim>\<open></Note>\<close>, counted once; and when any text follows the line, the line
  is still replaced so and the indentation kept, whatever the style value is.
\<close>

lemma hint_markers_replaced:
  assumes "\<forall>c \<in> set indent. is_space c" and "CHR ''%'' \<notin> set v"
  shows "processContent_hints (indent @ ''{% hint style=\"'' @ v @ ''\" %}'')
       = \<lparr>changed = True, text = indent @ ''<Note>'', startCount = 1, endCount = 0\<rparr> \<and>
     processContent_hints (indent @ ''{% endhint %}'')
       = \<lparr>changed = True, text = indent @ ''</Note>'', startCount = 0, endCount = 1\<rparr> \<and>
     (\<exists>rest'. text (processContent_hints (indent @ ''{% hint style=\"'' @ v @ ''\" %}'' @ rest))
          = indent @ ''<Note>'' @ rest') \<and>
     changed (processContent_hints (indent @ ''{% hint style=\"'' @ v @ ''\" %}'' @ rest)) \<and>
     (\<exists>rest'. text (processContent_hints (indent @ ''{% endhint %}'' @ rest))
          = indent @ ''</Note>'' @ rest') \<and>
     changed (processContent_hints (indent @ ''{% endhint %}'' @ rest))"
proof -
  have n: "\<And>r cb st. r = startTag \<or> r = endTag \<Longrightarrow>
      replace_g False True r cb (Some CHR ''}'') [] st = ([], st)"
      "\<And>r cb st. r = startTag \<or> r = endTag \<Longrightarrow>
      replace_g False True r cb (Some CHR ''>'') [] st = ([], st)"
    using end_of_text_none by (auto intro!: replace_g_none)
  from hint_start_line[OF assms, of "[]"]
  have a: "processContent_hints (indent @ ''{% hint style=\"'' @ v @ ''\" %}'')
       = \<lparr>changed = True, text = indent @ ''<Note>'', startCount = 1, endCount = 0\<rparr>"
    by (auto simp: n)
  from hint_end_line[OF assms(1), of "[]"]
  have b: "processContent_hints (indent @ ''{% endhint %}'')
       = \<lparr>changed = True, text = indent @ ''</Note>'', startCount = 0, endCount = 1\<rparr>"
    by (auto simp: n)
  from hint_start_line[OF assms, of rest] obtain o2 n1 n2 where
    c: "processContent_hints (indent @ ''{% hint style=\"'' @ v @ ''\" %}'' @ rest)
       = \<lparr>changed = True, text = indent @ ''<Note>'' @ o2, startCount = n1, endCount = n2\<rparr>"
    by blast
  from hint_end_line[OF assms(1), of rest] obtain o2' n1' n2' where
    d: "processContent_hints (indent @ ''{% endhint %}'' @ rest)
       = \<lparr>changed = True, text = indent @ ''</Note>'' @ o2', startCount = n1', endCount = n2'\<rparr>"
    by blast
  show ?thesis unfolding a b c d by simp
qed

lemma hint_markers_replaced_witness:
  \<open>list_all is_space [CHR '' '', CHR 0x09] \<and> CHR ''%'' \<notin> set ''warning'' \<and>
   processContent_hints ([CHR '' '', CHR 0x09] @ ''{% hint style="'' @ ''warning'' @ ''" %}'')
     = \<lparr>changed = True, text = [CHR '' '', CHR 0x09] @ ''<Note>'', startCount = 1, endCount = 0\<rparr> \<and>
   processContent_hints ([CHR '' '', CHR 0x09] @ ''{% endhint %}'')
     = \<lparr>changed = True, text = [CHR '' '', CHR 0x09] @ ''</Note>'', startCount = 0, endCount = 1\<rparr> \<and>
   (\<exists>rest'. text (processContent_hints
        ([CHR '' '', CHR 0x09] @ ''{% hint style="'' @ ''warning'' @ ''" %}'' @ ''\<newline>Take care.''))
      = [CHR '' '', CHR 0x09] @ ''<Note>'' @ rest') \<and>
   changed (processContent_hints
        ([CHR '' '', CHR 0x09] @ ''{% hint style="'' @ ''warning'' @ ''" %}'' @ ''\<newline>Take care.'')) \<and>
   (\<exists>rest'. text (processContent_hints ([CHR '' '', CHR 0x09] @ ''{% endhint %}'' @ ''\<newline>Take care.''))
      = [CHR '' '', CHR 0x09] @ ''</Note>'' @ rest') \<and>
   changed (processContent_hints ([CHR '' '', CHR 0x09] @ ''{% endhint %}'' @ ''\<newline>Take care.''))\<close>
proof -
  have 1: "\<forall>c \<in> set [CHR '' '', CHR 0x09]. is_space c" by (simp add: is_space_def)
  have 2: "CHR ''%'' \<notin> set ''warning''" by simp
  have 3: "list_all is_space [CHR '' '', CHR 0x09]" by (simp add: is_space_def)
  from hint_markers_replaced[OF 1 2, of "''\<newline>Take care.''"] 2 3 show ?thesis by blast
qed


section \<open>The claims\<close>

text \<open>
  C3. The embed transformer on the one-line input
  \<^verbatim>\<open>{% embed url="https://x.com/a" %}Caption text{% endembed %}\<close>. The header of the script gives
  this one-line block as handled, but the block pattern wants the end marker at the start
  of a line, and the single pattern wants the start marker to end its line: neither
  matches, the text comes back as it was and no block is counted.
\<close>

theorem embed_block_one_line:
  \<open>processContent_embeds ''{% embed url="https://x.com/a" %}Caption text{% endembed %}''
     = \<lparr>changed = False,
         text = ''{% embed url="https://x.com/a" %}Caption text{% endembed %}'',
         blocks = 0, singles = 0\<rparr>\<close>
  by code_simp

text \<open>
  C4, as the code has it. Normalizing \<^verbatim>\<open><img src="a.png" alt="Foo">\<close> with the fallback
  \<^verbatim>\<open>Foo Bar\<close>: the alt found does not contain the fallback, so the fallback is appended
  to it and the single alt attribute is \<^verbatim>\<open>alt="Foo Foo Bar"\<close>.
\<close>

theorem normalizeImgTag_alt_appended:
  \<open>normalizeImgTag ''<img src="a.png" alt="Foo">'' ''Foo Bar''
     = ''<img src="a.png" alt="Foo Foo Bar" />''\<close>
  by code_simp

text \<open>C4, as stated, fails: the tag produced has no attribute \<^verbatim>\<open>alt="Foo Bar"\<close>.\<close>

theorem normalizeImgTag_alt_not_fallback:
  \<open>\<not> includes_str (normalizeImgTag ''<img src="a.png" alt="Foo">'' ''Foo Bar'') ''alt="Foo Bar"''\<close>
  by code_simp


text \<open>
  C10. For each of the four transformers and every input text: when the flag \<^verbatim>\<open>changed\<close>
  returned is false, the text returned is the input text, so that not writing a file
  whose flag is false never drops a modification.
\<close>

theorem unchanged_flag_keeps_text:
  "(\<not> changed (processContent_embeds t) \<longrightarrow> text (processContent_embeds t) = t) \<and>
   (\<not> changed (processContent_hints t) \<longrightarrow> text (processContent_hints t) = t) \<and>
   (\<not> changed (processContent_arcade t) \<longrightarrow> text (processContent_arcade t) = t) \<and>
   (\<not> changed (processFileContent t) \<longrightarrow> content (processFileContent t) = t)"
  using embeds_unchanged hints_unchanged arcade_unchanged images_unchanged by blast

theorem unchanged_flag_keeps_text_witness:
  \<open>\<not> changed (processContent_embeds ''{% embed caption="x" %}'') \<and>
   text (processContent_embeds ''{% embed caption="x" %}'') = ''{% embed caption="x" %}'' \<and>
   \<not> changed (processContent_hints ''a hint'') \<and>
   text (processContent_hints ''a hint'') = ''a hint'' \<and>
   \<not> changed (processContent_arcade ''<iframe></iframe>'') \<and>
   text (processContent_arcade ''<iframe></iframe>'') = ''<iframe></iframe>'' \<and>
   \<not> changed (processFileContent ''<img src="a.png" alt="x" />'') \<and>
   content (processFileContent ''<img src="a.png" alt="x" />'') = ''<img src="a.png" alt="x" />''\<close>
proof -
  have e: \<open>\<not> changed (processContent_embeds ''{% embed caption="x" %}'')\<close> by code_simp
  have h: "\<not> changed (processContent_hints ''a hint'')" by code_simp
  have a: "\<not> changed (processContent_arcade ''<iframe></iframe>'')" by code_simp
  have i: \<open>\<not> changed (processFileContent ''<img src="a.png" alt="x" />'')\<close> by code_simp
  show ?thesis
    using e h a i
      unchanged_flag_keeps_text[of \<open>''{% embed caption="x" %}''\<close>]
      unchanged_flag_keeps_text[of "''a hint''"]
      unchanged_flag_keeps_text[of "''<iframe></iframe>''"]
      unchanged_flag_keeps_text[of \<open>''<img src="a.png" alt="x" />''\<close>]
    by blast
qed


text \<open>Every path collected is the accumulator's or comes from a chain without a dot name.\<close>

lemma collectFiles_origin:
  "p \<in> set (collectFiles d exts es acc) \<Longrightarrow>
   p \<in> set acc \<or>
   (\<exists>names \<in> set (chains es). p = join_all d names \<and> (\<forall>n \<in> set names. \<not> startsWith n ''.''))"
proof (induction d exts es acc rule: collectFiles.induct)
  case (1 dirPath exts collected)
  then show ?case by simp
next
  case (2 dirPath exts name entries collected)
  then show ?case
    by (auto simp: join_all_def split: if_splits)
next
  case (3 dirPath exts name sub entries collected)
  show ?case
  proof (cases "startsWith name ''.''")
    case True
    with 3 show ?thesis by auto
  next
    case False
    with "3.prems" have "p \<in> set (collectFiles dirPath exts entries
        (collectFiles (path_join dirPath name) exts sub collected))" by simp
    from "3.IH"(3)[OF False this] show ?thesis
    proof
      assume "p \<in> set (collectFiles (path_join dirPath name) exts sub collected)"
      from "3.IH"(2)[OF False this] show ?thesis
      proof
        assume "p \<in> set collected" then show ?thesis by simp
      next
        assume "\<exists>names\<in>set (chains sub). p = join_all (path_join dirPath name) names \<and>
           (\<forall>n\<in>set names. \<not> startsWith n ''.'')"
        then obtain names where n: "names \<in> set (chains sub)"
          "p = join_all (path_join dirPath name) names" "\<forall>n\<in>set names. \<not> startsWith n ''.''"
          by blast
        then have "name # names \<in> set (chains (Dir name sub # entries))"
          "p = join_all dirPath (name # names)" "\<forall>n\<in>set (name # names). \<not> startsWith n ''.''"
          using False by (auto simp: join_all_def)
        then show ?thesis by blast
      qed
    next
      assume "\<exists>names\<in>set (chains entries). p = join_all dirPath names \<and>
           (\<forall>n\<in>set names. \<not> startsWith n ''.'')"
      then show ?thesis by auto
    qed
  qed
qed

text \<open>
  C9. For every root directory, extension set and directory tree, every path the collector
  returns is the path of a chain of names leading from the root to a file in which no
  name, of a directory or of the file, starts with a dot; and an entry whose name starts
  with a dot, directory or file, is passed over whatever it holds.
\<close>

theorem collectFiles_skips_dot:
  "(\<forall>p \<in> set (collectFiles root exts entries []).
      \<exists>names \<in> set (chains entries). p = join_all root names \<and> (\<forall>n \<in> set names. \<not> startsWith n ''.''))
   \<and> (startsWith name ''.'' \<longrightarrow>
        collectFiles root exts (Dir name sub # entries) acc = collectFiles root exts entries acc
      \<and> collectFiles root exts (File name # entries) acc = collectFiles root exts entries acc)"
  using collectFiles_origin[of _ root exts entries "[]"] by auto

theorem collectFiles_skips_dot_witness:
  "collectFiles ''/r'' [''.md'', ''.mdx''] [Dir ''.git'' [File ''c.md''], File ''.d.md'', Dir ''e'' [File ''F.MDX'']] []
     = [''/r/e/F.MDX''] \<and>
   (\<exists>names \<in> set (chains [Dir ''.git'' [File ''c.md''], File ''.d.md'', Dir ''e'' [File ''F.MDX'']]).
      ''/r/e/F.MDX'' = join_all ''/r'' names \<and> (\<forall>n \<in> set names. \<not> startsWith n ''.'')) \<and>
   startsWith ''.git'' ''.'' \<and>
   collectFiles ''/r'' [''.md'', ''.mdx''] [Dir ''.git'' [File ''c.md'']] [] = []"
proof -
  have r: "collectFiles ''/r'' [''.md'', ''.mdx''] [Dir ''.git'' [File ''c.md''], File ''.d.md'', Dir ''e'' [File ''F.MDX'']] []
     = [''/r/e/F.MDX'']" by code_simp
  have d: "startsWith ''.git'' ''.''" by simp
  from collectFiles_skips_dot[of "''/r''" "[''.md'', ''.mdx'']"
      "[Dir ''.git'' [File ''c.md''], File ''.d.md'', Dir ''e'' [File ''F.MDX'']]"]
  have "\<exists>names \<in> set (chains [Dir ''.git'' [File ''c.md''], File ''.d.md'', Dir ''e'' [File ''F.MDX'']]).
      ''/r/e/F.MDX'' = join_all ''/r'' names \<and> (\<forall>n \<in> set names. \<not> startsWith n ''.'')"
    unfolding r by simp
  moreover from collectFiles_skips_dot[of "''/r''" "[''.md'', ''.mdx'']" "[]" "''.git''" "[File ''c.md'']" "[]"] d
  have "collectFiles ''/r'' [''.md'', ''.mdx''] [Dir ''.git'' [File ''c.md'']] [] = []" by simp
  ultimately show ?thesis using r d by blast
qed

text \<open>
  C8. The arcade transformer on the line of the claim gives the bare URL. With the src in
  single quotes and a later attribute, the capture \<^verbatim>\<open>[^"]+\<close> runs past the closing quote of
  the src up to the last quote it can reach, and what replaces the iframe is not the URL.
\<close>

theorem arcade_single_quoted_src:
  \<open>processContent_arcade ''<iframe src="https://app.arcade.software/share/abc" ...></iframe>''
     = \<lparr>changed = True, text = ''https://app.arcade.software/share/abc'', replaced = 1\<rparr> \<and>
   processContent_arcade
       (''<iframe src='https://app.arcade.software/share/abc' title='x'' @ [CHR 0x27] @ ''></iframe>'')
     = \<lparr>changed = True,
         text = ''https://app.arcade.software/share/abc' title='x'', replaced = 1\<rparr>\<close>
  by code_simp


text \<open>
  C5. The alt pattern \<^verbatim>\<open>/\salt\s*=\s*(...)/\<close> is searched in the whole attribute text, the
  values of other attributes included. On a tag whose title quotes an alt attribute the
  text inside the title is taken for the first alt value: it is chosen in place of the
  value of the alt attribute, and it is cut out of the title. Without that text in the
  title the alt value of the tag is chosen and the title kept.
\<close>

theorem normalizeImgTag_alt_inside_title:
  \<open>normalizeImgTag (''<img title="see alt='fake'' @ [CHR 0x27] @ '' here" src="a.png" alt="real">'') []
     = ''<img title="see here" src="a.png" alt="fake" />'' \<and>
   processFileContent (''<img title="see alt='fake'' @ [CHR 0x27] @ '' here" src="a.png" alt="real">'')
     = \<lparr>changed = True, content = ''<img title="see here" src="a.png" alt="fake" />'',
         figureUnwrapped = 0, imgsNormalized = 1\<rparr> \<and>
   normalizeImgTag ''<img title="see here" src="a.png" alt="real">'' []
     = ''<img title="see here" src="a.png" alt="real" />''\<close>
  by code_simp


text \<open>
  C6. The attribute pattern \<^verbatim>\<open>/(\w+)\s*=\s*(...)/\<close> has nothing before \<^verbatim>\<open>(\w+)\<close>, so it reads the
  end of the name \<^verbatim>\<open>data-url\<close> as the key \<^verbatim>\<open>url\<close>. A directive with a caption and a
  \<^verbatim>\<open>data-url\<close> attribute, and no url attribute, is replaced by an iframe and counted, as a
  block and as a single directive. The directive of the claim, with the caption only, is
  left as it was.
\<close>

theorem embed_data_url_read_as_url:
  \<open>parseEmbedAttrs '' caption="x" data-url="https://x.com/a" '' ''url'' = Some ''https://x.com/a'' \<and>
   processContent_embeds ''{% embed caption="x" data-url="https://x.com/a" %}\<newline>body\<newline>{% endembed %}''
     = \<lparr>changed = True,
         text = ''<iframe className="w-full aspect-video rounded-xl" src="https://x.com/a" title="x" frameBorder="0" allow="accelerometer; autoplay; clipboard-write; encrypted-media; gyroscope; picture-in-picture" allowFullScreen></iframe>'',
         blocks = 1, singles = 0\<rparr> \<and>
   processContent_embeds ''{% embed caption="x" data-url="https://x.com/a" %}''
     = \<lparr>changed = True,
         text = ''<iframe className="w-full aspect-video rounded-xl" src="https://x.com/a" title="x" frameBorder="0" allow="accelerometer; autoplay; clipboard-write; encrypted-media; gyroscope; picture-in-picture" allowFullScreen></iframe>'',
         blocks = 0, singles = 1\<rparr> \<and>
   processContent_embeds ''{% embed caption="x" %}\<newline>body\<newline>{% endembed %}''
     = \<lparr>changed = False, text = ''{% embed caption="x" %}\<newline>body\<newline>{% endembed %}'',
         blocks = 0, singles = 0\<rparr> \<and>
   processContent_embeds ''{% embed caption="x" %}body{% endembed %}''
     = \<lparr>changed = False, text = ''{% embed caption="x" %}body{% endembed %}'',
         blocks = 0, singles = 0\<rparr>\<close>
  by code_simp


text \<open>
  C2. One run of the image transformer on a figure whose caption is \<^verbatim>\<open>Q&A\<close>: the first pass
  writes the alt escaped once, the second pass of the same run finds the tag just written,
  reads the escaped alt back as it is and escapes it again, and counts the tag as
  normalized. The alt of the output is \<^verbatim>\<open>Q&amp;amp;A\<close>, escaped twice.
\<close>

theorem caption_escaped_twice:
  \<open>processFileContent ''<figure><img src="a.png"><figcaption>Q&A</figcaption></figure>''
     = \<lparr>changed = True, content = ''<img src="a.png" alt="Q&amp;amp;A" />'',
         figureUnwrapped = 1, imgsNormalized = 1\<rparr> \<and>
   htmlEntityEscape ''Q&A'' = ''Q&amp;A'' \<and>
   normalizeImgTag ''<img src="a.png">'' ''Q&A'' = ''<img src="a.png" alt="Q&amp;A" />'' \<and>
   normalizeImgTag ''<img src="a.png" alt="Q&amp;A" />'' [] = ''<img src="a.png" alt="Q&amp;amp;A" />''\<close>
  by code_simp


text \<open>
  C7. The start pattern reads the attributes of the marker with \<^verbatim>\<open>[^%]*\<close>, which stops at
  a percent sign. A start marker whose style value has one is not replaced, alone or as
  the first line of a block; the end marker of the block is. With the style
  \<^verbatim>\<open>warning\<close> both markers of the block are replaced.
\<close>

theorem hint_style_with_percent:
  \<open>processContent_hints ''{% hint style="50%" %}''
     = \<lparr>changed = False, text = ''{% hint style="50%" %}'', startCount = 0, endCount = 0\<rparr> \<and>
   processContent_hints ''{% hint style="50%" %}\<newline>Half of it.\<newline>{% endhint %}''
     = \<lparr>changed = True, text = ''{% hint style="50%" %}\<newline>Half of it.\<newline></Note>'',
         startCount = 0, endCount = 1\<rparr> \<and>
   processContent_hints ''{% hint style="warning" %}\<newline>Half of it.\<newline>{% endhint %}''
     = \<lparr>changed = True, text = ''<Note>\<newline>Half of it.\<newline></Note>'',
         startCount = 1, endCount = 1\<rparr>\<close>
  by code_simp





end
